theory Spec2Isabelle
  imports Main "HOL-Library.Word"
begin

section \<open>The mock cvc5 layer of TypeFuzzPrototype.cpp\<close>

text \<open>
  \<^verbatim>\<open>enum class Kind { ADD, SUB, MULT, GT, LT, EQUAL, AND, OR, XOR }\<close>
\<close>

datatype Kind = ADD | SUB | MULT | GT | LT | EQUAL | AND | OR | XOR

text \<open>
  \<^verbatim>\<open>class Term\<close> holds one private field, \<^verbatim>\<open>std::string value\<close>; \<^verbatim>\<open>toString\<close> reads it.
\<close>

datatype Term = Term string

fun toString :: "Term \<Rightarrow> string" where
  "toString (Term v) = v"

text \<open>
  \<^verbatim>\<open>std::to_string(int)\<close>: the decimal digits, with a leading minus sign for a negative
  value.
\<close>

definition digit_char :: "nat \<Rightarrow> char" where
  "digit_char d = ''0123456789'' ! d"

function to_string_nat :: "nat \<Rightarrow> string" where
  "to_string_nat n =
     (if n < 10 then [digit_char n] else to_string_nat (n div 10) @ [digit_char (n mod 10)])"
  by pat_completeness auto
termination
  by (relation "measure (\<lambda>n. n)") auto

declare to_string_nat.simps [simp del]

definition to_string :: "int \<Rightarrow> string" where
  "to_string i = (if i < 0 then CHR ''-'' # to_string_nat (nat (- i)) else to_string_nat (nat i))"

definition mkInteger :: "int \<Rightarrow> Term" where
  "mkInteger v = Term (to_string v)"

definition mkBoolean :: "bool \<Rightarrow> Term" where
  "mkBoolean v = Term (if v then ''true'' else ''false'')"

text \<open>The \<^verbatim>\<open>switch\<close> of \<^verbatim>\<open>mkTerm\<close> that picks the operator symbol.\<close>

fun kind_str :: "Kind \<Rightarrow> string" where
  "kind_str ADD = ''+''"
| "kind_str SUB = ''-''"
| "kind_str MULT = ''*''"
| "kind_str GT = ''>''"
| "kind_str LT = ''<''"
| "kind_str EQUAL = ''=''"
| "kind_str AND = ''and''"
| "kind_str OR = ''or''"
| "kind_str XOR = ''xor''"

text \<open>
  \<^verbatim>\<open>mkTerm\<close>: \<^verbatim>\<open>result = "(" + kind_str\<close>, then \<^verbatim>\<open>result += " " + child.toString()\<close> for
  each child in order, then \<^verbatim>\<open>result += ")"\<close>.
\<close>

definition mkTerm :: "Kind \<Rightarrow> Term list \<Rightarrow> Term" where
  "mkTerm kind children =
     Term (foldl (\<lambda>result child. result @ '' '' @ toString child)
                 (''('' @ kind_str kind) children @ '')'')"

text \<open>
  \<^verbatim>\<open>class Solver\<close> has one field, the vector \<^verbatim>\<open>constraints\<close>. \<^verbatim>\<open>class Result\<close> has no field.
\<close>

record Solver =
  constraints :: "Term list"

datatype Result = Result

definition isSat :: "Result \<Rightarrow> bool" where
  "isSat r = True"

definition isUnsat :: "Result \<Rightarrow> bool" where
  "isUnsat r = (\<not> isSat r)"

definition result_toString :: "Result \<Rightarrow> string" where
  "result_toString r = (if isSat r then ''sat'' else ''unsat'')"

definition assertFormula :: "Term \<Rightarrow> Solver \<Rightarrow> Solver" where
  "assertFormula formula s = s\<lparr>constraints := constraints s @ [formula]\<rparr>"

definition checkSat :: "Solver \<Rightarrow> Result \<times> Solver" where
  "checkSat s = (Result, s)"

definition resetAssertions :: "Solver \<Rightarrow> Solver" where
  "resetAssertions s = s\<lparr>constraints := []\<rparr>"

section \<open>The random source\<close>

text \<open>
  \<^verbatim>\<open>std::mt19937\<close> and \<^verbatim>\<open>std::uniform_int_distribution<int>\<close> belong to the C++ standard
  library, not to this repository. The generator is therefore written over any engine
  state \<open>'g\<close> with the two operations the source uses:
  \<^item> \<open>rng_call\<close> is \<^verbatim>\<open>rng()\<close>: it returns the next 32-bit output and the advanced state;
  \<^item> \<open>uniform_int_distribution\<close> is \<^verbatim>\<open>dist(rng)\<close> for \<^verbatim>\<open>dist(min, max)\<close>: it returns an
    integer and the advanced state (how many outputs it consumes is the library's
    business).
\<close>

record 'g rng_ops =
  rng_call :: "'g \<Rightarrow> 32 word \<times> 'g"
  uniform_int_distribution :: "int \<Rightarrow> int \<Rightarrow> 'g \<Rightarrow> int \<times> 'g"

section \<open>The expression generator of class TypeFuzz\<close>

text \<open>
  \<^verbatim>\<open>generateInteger(min, max)\<close>; the source's default arguments are \<open>-100\<close> and \<open>100\<close>.
\<close>

definition generateInteger :: "'g rng_ops \<Rightarrow> int \<Rightarrow> int \<Rightarrow> 'g \<Rightarrow> Term \<times> 'g" where
  "generateInteger R lo hi g =
     (let (v, g') = uniform_int_distribution R lo hi g in (mkInteger v, g'))"

text \<open>\<^verbatim>\<open>generateBoolean\<close>: \<^verbatim>\<open>bool value = rng() % 2 == 1\<close>.\<close>

definition generateBoolean :: "'g rng_ops \<Rightarrow> 'g \<Rightarrow> Term \<times> 'g" where
  "generateBoolean R g = (let (r, g') = rng_call R g in (mkBoolean (r mod 2 = 1), g'))"

text \<open>
  The guard of \<^verbatim>\<open>generateArithmetic\<close>,
  \<^verbatim>\<open>depth > 2 || (depth > 0 && rng() % 3 == 0)\<close>. Both operators short-circuit, so the
  engine is advanced only when \<open>0 < depth \<le> 2\<close>. The depth is a C++ \<^verbatim>\<open>int\<close>; it is only
  ever incremented when it is at most 2, so it never overflows and is modelled as \<open>int\<close>.
\<close>

definition arith_guard :: "'g rng_ops \<Rightarrow> int \<Rightarrow> 'g \<Rightarrow> bool \<times> 'g" where
  "arith_guard R depth g =
     (if depth > 2 then (True, g)
      else if depth > 0 then (let (r, g') = rng_call R g in (r mod 3 = 0, g'))
      else (False, g))"

text \<open>The three \<^verbatim>\<open>switch (rng() % 3)\<close> statements, each with its \<^verbatim>\<open>default\<close> branch.\<close>

definition arith_kind :: "32 word \<Rightarrow> Kind" where
  "arith_kind r =
     (if r mod 3 = 0 then ADD else if r mod 3 = 1 then SUB else if r mod 3 = 2 then MULT
      else ADD)"

definition compare_kind :: "32 word \<Rightarrow> Kind" where
  "compare_kind r =
     (if r mod 3 = 0 then GT else if r mod 3 = 1 then LT else if r mod 3 = 2 then EQUAL
      else EQUAL)"

definition connective_kind :: "32 word \<Rightarrow> Kind" where
  "connective_kind r =
     (if r mod 3 = 0 then AND else if r mod 3 = 1 then OR else if r mod 3 = 2 then XOR
      else AND)"

function generateArithmetic :: "'g rng_ops \<Rightarrow> int \<Rightarrow> 'g \<Rightarrow> Term \<times> 'g" where
  "generateArithmetic R depth g =
     (let (stop, g0) = arith_guard R depth g in
      if stop then generateInteger R (- 100) 100 g0
      else
        let (left, g1) = generateArithmetic R (depth + 1) g0;
            (right, g2) = generateArithmetic R (depth + 1) g1;
            children = [left, right];
            (r, g3) = rng_call R g2
        in (mkTerm (arith_kind r) children, g3))"
  by pat_completeness auto
termination
  by (relation "measure (\<lambda>(R, depth, g). nat (3 - depth))")
     (auto simp: arith_guard_def split: if_splits)

declare generateArithmetic.simps [simp del]

text \<open>
  The guard of \<^verbatim>\<open>generateBooleanExpr\<close>, \<^verbatim>\<open>depth > 1 || (depth > 0 && rng() % 2 == 0)\<close>.
\<close>

definition bool_guard :: "'g rng_ops \<Rightarrow> int \<Rightarrow> 'g \<Rightarrow> bool \<times> 'g" where
  "bool_guard R depth g =
     (if depth > 1 then (True, g)
      else if depth > 0 then (let (r, g') = rng_call R g in (r mod 2 = 0, g'))
      else (False, g))"

text \<open>
  The body of the outer \<^verbatim>\<open>if\<close> of \<^verbatim>\<open>generateBooleanExpr\<close>: a Boolean literal when
  \<^verbatim>\<open>rng() % 2 == 0\<close>, otherwise a comparison of two calls of \<^verbatim>\<open>generateArithmetic()\<close>,
  whose default argument is \<^verbatim>\<open>depth = 0\<close>.
\<close>

definition bool_leaf :: "'g rng_ops \<Rightarrow> 'g \<Rightarrow> Term \<times> 'g" where
  "bool_leaf R g0 =
     (let (c, g1) = rng_call R g0 in
      if c mod 2 = 0 then generateBoolean R g1
      else
        let (left, g2) = generateArithmetic R 0 g1;
            (right, g3) = generateArithmetic R 0 g2;
            children = [left, right];
            (r, g4) = rng_call R g3
        in (mkTerm (compare_kind r) children, g4))"

function generateBooleanExpr :: "'g rng_ops \<Rightarrow> int \<Rightarrow> 'g \<Rightarrow> Term \<times> 'g" where
  "generateBooleanExpr R depth g =
     (let (stop, g0) = bool_guard R depth g in
      if stop then bool_leaf R g0
      else
        let (left, g1) = generateBooleanExpr R (depth + 1) g0;
            (right, g2) = generateBooleanExpr R (depth + 1) g1;
            children = [left, right];
            (r, g3) = rng_call R g2
        in (mkTerm (connective_kind r) children, g3))"
  by pat_completeness auto
termination
  by (relation "measure (\<lambda>(R, depth, g). nat (2 - depth))")
     (auto simp: bool_guard_def split: if_splits)

declare generateBooleanExpr.simps [simp del]

section \<open>Typed expression trees\<close>

text \<open>
  The mock \<^verbatim>\<open>Term\<close> is a string, so the typing discipline of the generator is stated on
  the tree of solver calls that builds the string: \<open>term_of e\<close> is the \<^verbatim>\<open>Term\<close> obtained
  by calling \<^verbatim>\<open>mkInteger\<close>, \<^verbatim>\<open>mkBoolean\<close> and \<^verbatim>\<open>mkTerm\<close> in the shape of \<open>e\<close>.
\<close>

datatype Expr = IntLiteral int | BoolLiteral bool | Operation Kind "Expr list"

fun term_of :: "Expr \<Rightarrow> Term" where
  "term_of (IntLiteral v) = mkInteger v"
| "term_of (BoolLiteral b) = mkBoolean b"
| "term_of (Operation kind children) = mkTerm kind (map term_of children)"

definition arithmetic_kind :: "Kind \<Rightarrow> bool" where
  "arithmetic_kind k = (k = ADD \<or> k = SUB \<or> k = MULT)"

definition comparison_kind :: "Kind \<Rightarrow> bool" where
  "comparison_kind k = (k = GT \<or> k = LT \<or> k = EQUAL)"

definition boolean_kind :: "Kind \<Rightarrow> bool" where
  "boolean_kind k = (k = AND \<or> k = OR \<or> k = XOR)"

text \<open>
  Arithmetic-typed: an integer literal, or an arithmetic operator over exactly two
  Arithmetic-typed children.
\<close>

fun arith_typed :: "Expr \<Rightarrow> bool" where
  "arith_typed (IntLiteral v) = True"
| "arith_typed (BoolLiteral b) = False"
| "arith_typed (Operation kind children) =
     (arithmetic_kind kind \<and> length children = 2 \<and> list_all arith_typed children)"

text \<open>
  Boolean-typed: a Boolean literal, a comparison over exactly two Arithmetic-typed
  children, or a connective over exactly two Boolean-typed children.
\<close>

fun bool_typed :: "Expr \<Rightarrow> bool" where
  "bool_typed (IntLiteral v) = False"
| "bool_typed (BoolLiteral b) = True"
| "bool_typed (Operation kind children) =
     (length children = 2 \<and>
      ((comparison_kind kind \<and> list_all arith_typed children) \<or>
       (boolean_kind kind \<and> list_all bool_typed children)))"

text \<open>The depth of a tree: a literal has depth 0, an operation is one level above its
  deepest child.\<close>

fun depth_of :: "Expr \<Rightarrow> nat" where
  "depth_of (IntLiteral v) = 0"
| "depth_of (BoolLiteral b) = 0"
| "depth_of (Operation kind children) = Suc (foldr max (map depth_of children) 0)"

text \<open>
  The same depth read off the printed term: the deepest nesting of parentheses.
  \<open>max_nesting lvl s\<close> scans \<open>s\<close> from nesting level \<open>lvl\<close> and returns the highest level
  it reaches.
\<close>

fun max_nesting :: "nat \<Rightarrow> string \<Rightarrow> nat" where
  "max_nesting lvl [] = lvl"
| "max_nesting lvl (c # cs) =
     (if c = CHR ''('' then max_nesting (Suc lvl) cs
      else if c = CHR '')'' then max lvl (max_nesting (lvl - 1) cs)
      else max_nesting lvl cs)"

definition term_depth :: "Term \<Rightarrow> nat" where
  "term_depth t = max_nesting 0 (toString t)"

section \<open>The fuzz driver of class TypeFuzz\<close>

text \<open>
  The object has two fields, \<^verbatim>\<open>solver\<close> and \<^verbatim>\<open>rng\<close>. Two more components make the
  effects of \<^verbatim>\<open>fuzz\<close> visible: \<open>cout\<close> is the list of lines written to \<^verbatim>\<open>std::cout\<close>, and
  \<open>solver_calls\<close> lists, in order, the calls of \<^verbatim>\<open>assertFormula\<close>, \<^verbatim>\<open>checkSat\<close> and
  \<^verbatim>\<open>resetAssertions\<close> made on \<^verbatim>\<open>solver\<close>. No operation reads \<open>solver_calls\<close>.
\<close>

datatype SolverCall = CallAssertFormula Term | CallCheckSat | CallResetAssertions

record 'g TypeFuzz =
  solver :: Solver
  rng :: 'g
  cout :: "string list"
  solver_calls :: "SolverCall list"

text \<open>\<^verbatim>\<open>setLogic\<close> and \<^verbatim>\<open>setOption\<close> have empty bodies.\<close>

definition setLogic :: "string \<Rightarrow> Solver \<Rightarrow> Solver" where
  "setLogic logic s = s"

definition setOption :: "string \<Rightarrow> string \<Rightarrow> Solver \<Rightarrow> Solver" where
  "setOption option v s = s"

text \<open>
  The constructor \<^verbatim>\<open>TypeFuzz() : rng(std::random_device{}())\<close>. It takes no argument:
  the engine is seeded with the value that \<^verbatim>\<open>std::random_device\<close> delivers, which is
  an input from the environment (\<open>random_device\<close>). \<open>engine\<close> is the engine's
  constructor from a seed value.
\<close>

definition TypeFuzz_new :: "(32 word \<Rightarrow> 'g) \<Rightarrow> 32 word \<Rightarrow> 'g TypeFuzz" where
  "TypeFuzz_new engine random_device =
     \<lparr>solver = setOption ''produce-models'' ''true'' (setLogic ''ALL'' \<lparr>constraints = []\<rparr>),
      rng = engine random_device,
      cout = [],
      solver_calls = []\<rparr>"

definition print_lines :: "string list \<Rightarrow> 'g TypeFuzz \<Rightarrow> 'g TypeFuzz" where
  "print_lines ls st = st\<lparr>cout := cout st @ ls\<rparr>"

definition solver_assertFormula :: "Term \<Rightarrow> 'g TypeFuzz \<Rightarrow> 'g TypeFuzz" where
  "solver_assertFormula formula st =
     st\<lparr>solver := assertFormula formula (solver st),
        solver_calls := solver_calls st @ [CallAssertFormula formula]\<rparr>"

definition solver_checkSat :: "'g TypeFuzz \<Rightarrow> Result \<times> 'g TypeFuzz" where
  "solver_checkSat st =
     (let (result, s) = checkSat (solver st)
      in (result, st\<lparr>solver := s, solver_calls := solver_calls st @ [CallCheckSat]\<rparr>))"

definition solver_resetAssertions :: "'g TypeFuzz \<Rightarrow> 'g TypeFuzz" where
  "solver_resetAssertions st =
     st\<lparr>solver := resetAssertions (solver st),
        solver_calls := solver_calls st @ [CallResetAssertions]\<rparr>"

text \<open>
  The inner loop \<^verbatim>\<open>for (int i = 0; i < constraints_per_test; ++i)\<close>, with the local
  vector \<^verbatim>\<open>constraints\<close> threaded through it as \<open>test_constraints\<close> (the record field of
  the solver has the name already).
\<close>

function constraint_loop ::
  "'g rng_ops \<Rightarrow> int \<Rightarrow> int \<Rightarrow> Term list \<Rightarrow> 'g TypeFuzz \<Rightarrow> Term list \<times> 'g TypeFuzz" where
  "constraint_loop R constraints_per_test i test_constraints st =
     (if i < constraints_per_test then
        let (constraint, g) = generateBooleanExpr R 0 (rng st);
            st1 = st\<lparr>rng := g\<rparr>;
            constraints1 = test_constraints @ [constraint];
            st2 = solver_assertFormula constraint st1;
            st3 = print_lines
                    [''  Constraint '' @ to_string i @ '': '' @ toString constraint] st2
        in constraint_loop R constraints_per_test (i + 1) constraints1 st3
      else (test_constraints, st))"
  by pat_completeness auto
termination
  by (relation "measure (\<lambda>(R, constraints_per_test, i, test_constraints, st).
                   nat (constraints_per_test - i))") auto

declare constraint_loop.simps [simp del]

text \<open>The body of the outer loop, for one value of \<^verbatim>\<open>test_num\<close>.\<close>

definition test_case :: "'g rng_ops \<Rightarrow> int \<Rightarrow> int \<Rightarrow> 'g TypeFuzz \<Rightarrow> 'g TypeFuzz" where
  "test_case R constraints_per_test test_num st =
     (let st1 = print_lines
                  [''Test Case '' @ to_string (test_num + 1) @ '':'',
                   ''----------------------------------------------''] st;
          (test_constraints, st2) = constraint_loop R constraints_per_test 0 [] st1;
          (result, st3) = solver_checkSat st2;
          st4 = print_lines [''  Satisfiability: '' @ result_toString result] st3;
          st5 = (if isSat result
                 then print_lines [''  SATISFIABLE - Constraints are consistent''] st4
                 else print_lines [''  UNSATISFIABLE - Constraints are inconsistent''] st4);
          st6 = print_lines [''----------------------------------------------'', []] st5
      in solver_resetAssertions st6)"

text \<open>The outer loop \<^verbatim>\<open>for (int test_num = 0; test_num < num_tests; ++test_num)\<close>.\<close>

function test_loop :: "'g rng_ops \<Rightarrow> int \<Rightarrow> int \<Rightarrow> int \<Rightarrow> 'g TypeFuzz \<Rightarrow> 'g TypeFuzz" where
  "test_loop R num_tests constraints_per_test test_num st =
     (if test_num < num_tests then
        test_loop R num_tests constraints_per_test (test_num + 1)
          (test_case R constraints_per_test test_num st)
      else st)"
  by pat_completeness auto
termination
  by (relation "measure (\<lambda>(R, num_tests, constraints_per_test, test_num, st).
                   nat (num_tests - test_num))") auto

declare test_loop.simps [simp del]

text \<open>
  \<^verbatim>\<open>void fuzz(int num_tests = 5, int constraints_per_test = 3)\<close>. It returns nothing and
  raises nothing; its effects are the lines printed, the solver calls and the advance of
  the engine. An empty list is an empty line.
\<close>

definition fuzz :: "'g rng_ops \<Rightarrow> int \<Rightarrow> int \<Rightarrow> 'g TypeFuzz \<Rightarrow> 'g TypeFuzz" where
  "fuzz R num_tests constraints_per_test st =
     (let st1 = print_lines
                  [''TypeFuzz Prototype - My C++ Implementation'',
                   ''=============================================='',
                   ''Using cvc5 C++ API for constraint generation and solving'',
                   []] st;
          st2 = test_loop R num_tests constraints_per_test 0 st1
      in print_lines
           [''=============================================='',
            ''TypeFuzz completed '' @ to_string num_tests @ '' test cases'',
            ''Note: This uses mock cvc5 classes for demonstration.'',
            ''      Replace with #include <cvc5/cvc5.h> for real usage.''] st2)"

text \<open>The name of a solver call, without its argument.\<close>

fun call_name :: "SolverCall \<Rightarrow> string" where
  "call_name (CallAssertFormula formula) = ''assertFormula''"
| "call_name CallCheckSat = ''checkSat''"
| "call_name CallResetAssertions = ''resetAssertions''"

section \<open>What a campaign prints and calls\<close>

text \<open>
  The lines and the solver calls of a campaign, as functions of the terms it generates.
  They are the vocabulary of the statements about \<open>fuzz\<close> below; the driver itself is
  \<open>fuzz\<close> above.
\<close>

fun constraint_lines :: "int \<Rightarrow> Term list \<Rightarrow> string list" where
  "constraint_lines i [] = []"
| "constraint_lines i (t # ts) =
     (''  Constraint '' @ to_string i @ '': '' @ toString t) # constraint_lines (i + 1) ts"

definition test_case_lines :: "int \<Rightarrow> Term list \<Rightarrow> string list" where
  "test_case_lines test_num ts =
     [''Test Case '' @ to_string (test_num + 1) @ '':'',
      ''----------------------------------------------''] @
     constraint_lines 0 ts @
     [''  Satisfiability: sat'',
      ''  SATISFIABLE - Constraints are consistent'',
      ''----------------------------------------------'',
      []]"

fun campaign_lines :: "int \<Rightarrow> Term list list \<Rightarrow> string list" where
  "campaign_lines test_num [] = []"
| "campaign_lines test_num (ts # tss) =
     test_case_lines test_num ts @ campaign_lines (test_num + 1) tss"

definition header_lines :: "string list" where
  "header_lines =
     [''TypeFuzz Prototype - My C++ Implementation'',
      ''=============================================='',
      ''Using cvc5 C++ API for constraint generation and solving'',
      []]"

definition footer_lines :: "int \<Rightarrow> string list" where
  "footer_lines num_tests =
     [''=============================================='',
      ''TypeFuzz completed '' @ to_string num_tests @ '' test cases'',
      ''Note: This uses mock cvc5 classes for demonstration.'',
      ''      Replace with #include <cvc5/cvc5.h> for real usage.'']"

definition test_case_calls :: "Term list \<Rightarrow> SolverCall list" where
  "test_case_calls ts = map CallAssertFormula ts @ [CallCheckSat, CallResetAssertions]"

definition campaign_calls :: "Term list list \<Rightarrow> SolverCall list" where
  "campaign_calls tss = concat (map test_case_calls tss)"

text \<open>A term that renders a Boolean-typed tree.\<close>

definition boolean_term :: "Term \<Rightarrow> bool" where
  "boolean_term t = (\<exists>e. bool_typed e \<and> t = term_of e)"

section \<open>Engines\<close>

text \<open>
  A scripted engine, for evaluating the generator on draws chosen by hand: the state is
  the list of outputs still to come, and an exhausted script delivers 0. Its
  distribution reduces one output modulo the size of the range.
\<close>

definition script_call :: "32 word list \<Rightarrow> 32 word \<times> 32 word list" where
  "script_call g = (case g of [] \<Rightarrow> (0, []) | x # xs \<Rightarrow> (x, xs))"

definition script_uniform :: "int \<Rightarrow> int \<Rightarrow> 32 word list \<Rightarrow> int \<times> 32 word list" where
  "script_uniform lo hi g =
     (let (r, g') = script_call g in (lo + int (unat r mod nat (hi - lo + 1)), g'))"

definition script_ops :: "32 word list rng_ops" where
  "script_ops = \<lparr>rng_call = script_call, uniform_int_distribution = script_uniform\<rparr>"

text \<open>A freshly constructed fuzzer whose engine is the scripted one, loaded with \<open>script\<close>.\<close>

definition script_fuzzer :: "32 word list \<Rightarrow> 32 word list TypeFuzz" where
  "script_fuzzer script = TypeFuzz_new (\<lambda>seed. script) 0"

text \<open>
  \<^verbatim>\<open>std::mt19937\<close>, the engine the source declares, as the C++ standard defines it
  (\<^verbatim>\<open>mersenne_twister_engine\<close> with word size 32, state size 624, shift size 397,
  mask bits 31, xor mask \<^verbatim>\<open>0x9908b0df\<close>, tempering \<^verbatim>\<open>(11, 0xffffffff)\<close>,
  \<^verbatim>\<open>(7, 0x9d2c5680)\<close>, \<^verbatim>\<open>(15, 0xefc60000)\<close>, \<^verbatim>\<open>18\<close>, and initialization multiplier
  \<^verbatim>\<open>1812433253\<close>). The state is the list of the last 624 values of the sequence \<open>X\<close>.
  Seeding with \<open>s\<close> sets \<open>X 0 = s\<close> and
  \<open>X i = 1812433253 * (X (i - 1) xor (X (i - 1) rshift 30)) + i\<close> for \<open>i = 1, ..., 623\<close>.
\<close>

definition mt_step :: "nat \<Rightarrow> 32 word \<Rightarrow> 32 word" where
  "mt_step i x = 1812433253 * (xor x (drop_bit 30 x)) + of_nat i"

fun mt_fill :: "nat \<Rightarrow> nat \<Rightarrow> 32 word \<Rightarrow> 32 word list" where
  "mt_fill 0 i prev = []"
| "mt_fill (Suc k) i prev = mt_step i prev # mt_fill k (Suc i) (mt_step i prev)"

definition mt19937_seed :: "32 word \<Rightarrow> 32 word list" where
  "mt19937_seed s = s # mt_fill 623 1 s"

text \<open>
  The transition: the next value of \<open>X\<close> is made from the upper bit of the oldest value
  \<open>x0\<close>, the lower 31 bits of the next one \<open>x1\<close>, and the value \<open>xm\<close> 397 places after the
  oldest.
\<close>

definition mt_twist :: "32 word \<Rightarrow> 32 word \<Rightarrow> 32 word \<Rightarrow> 32 word" where
  "mt_twist x0 x1 xm =
     (let y = or (and x0 0x80000000) (and x1 0x7FFFFFFF)
      in xor (xor xm (drop_bit 1 y)) (if and y 1 = 0 then 0 else 0x9908B0DF))"

text \<open>The tempering of an output.\<close>

definition mt_temper :: "32 word \<Rightarrow> 32 word" where
  "mt_temper x =
     (let z1 = xor x (and (drop_bit 11 x) 0xFFFFFFFF);
          z2 = xor z1 (and (push_bit 7 z1) 0x9D2C5680);
          z3 = xor z2 (and (push_bit 15 z2) 0xEFC60000)
      in xor z3 (drop_bit 18 z3))"

text \<open>
  One call \<^verbatim>\<open>rng()\<close>: the new value is appended, the oldest one is dropped, and the
  tempered new value is returned.
\<close>

definition mt19937_call :: "32 word list \<Rightarrow> 32 word \<times> 32 word list" where
  "mt19937_call st =
     (let x = mt_twist (st ! 0) (st ! 1) (st ! 397) in (mt_temper x, tl st @ [x]))"

text \<open>
  The standard leaves the algorithm of \<^verbatim>\<open>std::uniform_int_distribution\<close> to the
  implementation. \<open>mt_uniform\<close> stands in for it where a concrete engine is needed: one
  output reduced modulo the size of the range.
\<close>

definition mt_uniform :: "int \<Rightarrow> int \<Rightarrow> 32 word list \<Rightarrow> int \<times> 32 word list" where
  "mt_uniform lo hi g =
     (let (r, g') = mt19937_call g in (lo + int (unat r mod nat (hi - lo + 1)), g'))"

definition mt19937_ops :: "32 word list rng_ops" where
  "mt19937_ops = \<lparr>rng_call = mt19937_call, uniform_int_distribution = mt_uniform\<rparr>"

text \<open>The state of the engine seeded with \<open>s\<close> after \<open>j\<close> calls.\<close>

definition mt_state :: "32 word \<Rightarrow> nat \<Rightarrow> 32 word list" where
  "mt_state s j = ((\<lambda>g. snd (mt19937_call g)) ^^ j) (mt19937_seed s)"

text \<open>
  The same engine in a form that is cheap to evaluate. The first 227 outputs of a
  freshly seeded engine depend on seeded values only (\<open>X j\<close>, \<open>X (j + 1)\<close> and
  \<open>X (j + 397)\<close> with \<open>j + 397 < 624\<close>), and these follow from their predecessors by
  \<open>mt_step\<close>. The state \<open>(s, j, lo, hi)\<close> records the seed, the number of calls made, and
  the two values \<open>X j\<close> and \<open>X (j + 397)\<close>; from call 227 on it falls back on the list of
  624 values. \<open>mt_iter k i x\<close> applies \<open>mt_step (i + 1)\<close>, ..., \<open>mt_step (i + k)\<close> to \<open>x\<close>.
\<close>

fun mt_iter :: "nat \<Rightarrow> nat \<Rightarrow> 32 word \<Rightarrow> 32 word" where
  "mt_iter 0 i x = x"
| "mt_iter (Suc k) i x = mt_iter k (Suc i) (mt_step (Suc i) x)"

fun mt_light_call ::
  "32 word \<times> nat \<times> 32 word \<times> 32 word \<Rightarrow>
   32 word \<times> (32 word \<times> nat \<times> 32 word \<times> 32 word)" where
  "mt_light_call (s, j, lo, hi) =
     (if j < 227 then mt_temper (mt_twist lo (mt_step (Suc j) lo) hi)
      else fst (mt19937_call (mt_state s j)),
      (s, Suc j, mt_step (Suc j) lo, mt_step (j + 398) hi))"

definition mt_light_seed :: "32 word \<Rightarrow> 32 word \<times> nat \<times> 32 word \<times> 32 word" where
  "mt_light_seed s = (s, 0, s, mt_iter 397 0 s)"

definition mt_light_uniform ::
  "int \<Rightarrow> int \<Rightarrow> 32 word \<times> nat \<times> 32 word \<times> 32 word \<Rightarrow>
   int \<times> (32 word \<times> nat \<times> 32 word \<times> 32 word)" where
  "mt_light_uniform lo hi g =
     (let (r, g') = mt_light_call g in (lo + int (unat r mod nat (hi - lo + 1)), g'))"

definition mt_light_ops :: "(32 word \<times> nat \<times> 32 word \<times> 32 word) rng_ops" where
  "mt_light_ops = \<lparr>rng_call = mt_light_call, uniform_int_distribution = mt_light_uniform\<rparr>"

text \<open>The cheap state \<open>h\<close> describes the list state \<open>g\<close>.\<close>

definition mt_tracks :: "32 word list \<Rightarrow> 32 word \<times> nat \<times> 32 word \<times> 32 word \<Rightarrow> bool" where
  "mt_tracks g h =
     (case h of (s, j, lo, hi) \<Rightarrow>
        g = mt_state s j \<and> (j < 227 \<longrightarrow> lo = mt_iter j 0 s \<and> hi = mt_iter (j + 397) 0 s))"

text \<open>
  Two engines deliver the same draws from states related by \<open>B\<close>: related states give
  equal outputs, equal distribution values, and related successor states.
\<close>

definition same_draws :: "('g \<Rightarrow> 'h \<Rightarrow> bool) \<Rightarrow> 'g rng_ops \<Rightarrow> 'h rng_ops \<Rightarrow> bool" where
  "same_draws B R R' =
     (\<forall>g h. B g h \<longrightarrow>
        fst (rng_call R g) = fst (rng_call R' h) \<and>
        B (snd (rng_call R g)) (snd (rng_call R' h)) \<and>
        (\<forall>lo hi.
           fst (uniform_int_distribution R lo hi g) = fst (uniform_int_distribution R' lo hi h) \<and>
           B (snd (uniform_int_distribution R lo hi g))
             (snd (uniform_int_distribution R' lo hi h))))"

text \<open>The first \<open>n\<close> outputs of an engine.\<close>

fun draw_list :: "'g rng_ops \<Rightarrow> nat \<Rightarrow> 'g \<Rightarrow> 32 word list" where
  "draw_list R 0 g = []"
| "draw_list R (Suc n) g = fst (rng_call R g) # draw_list R n (snd (rng_call R g))"

text \<open>
  The contract of \<^verbatim>\<open>std::uniform_int_distribution<int>(a, b)\<close> that the generator relies
  on: for \<open>a \<le> b\<close> the value delivered lies in the closed range \<open>[a, b]\<close>.
\<close>

definition uniform_in_range :: "'g rng_ops \<Rightarrow> bool" where
  "uniform_in_range R =
     (\<forall>lo hi g. lo \<le> hi \<longrightarrow>
        lo \<le> fst (uniform_int_distribution R lo hi g) \<and>
        fst (uniform_int_distribution R lo hi g) \<le> hi)"

section \<open>Unfolding the generator\<close>

lemma generateArithmetic_stop:
  "arith_guard R depth g = (True, g0) \<Longrightarrow>
   generateArithmetic R depth g = generateInteger R (- 100) 100 g0"
  by (subst generateArithmetic.simps) simp

lemma generateArithmetic_step:
  "arith_guard R depth g = (False, g0) \<Longrightarrow>
   generateArithmetic R (depth + 1) g0 = (l, g1) \<Longrightarrow>
   generateArithmetic R (depth + 1) g1 = (r, g2) \<Longrightarrow>
   rng_call R g2 = (c, g3) \<Longrightarrow>
   generateArithmetic R depth g = (mkTerm (arith_kind c) [l, r], g3)"
  by (subst generateArithmetic.simps) simp

lemma arith_kind_arithmetic: "arithmetic_kind (arith_kind r)"
  by (simp add: arith_kind_def arithmetic_kind_def)

lemma arith_guard_False_depth: "arith_guard R depth g = (False, g0) \<Longrightarrow> depth \<le> 2"
  by (auto simp: arith_guard_def split: if_splits prod.splits)

lemma generateArithmetic_shape:
  "\<exists>e. arith_typed e \<and> depth_of e \<le> nat (3 - depth) \<and>
       fst (generateArithmetic R depth g) = term_of e"
proof (induction R depth g rule: generateArithmetic.induct)
  case (1 R depth g)
  obtain stop g0 where G: "arith_guard R depth g = (stop, g0)" by force
  show ?case
  proof (cases stop)
    case True
    obtain v g' where U: "uniform_int_distribution R (- 100) 100 g0 = (v, g')" by force
    have "generateArithmetic R depth g = (mkInteger v, g')"
      using generateArithmetic_stop[of R depth g g0] G True U
      by (simp add: generateInteger_def)
    then have "arith_typed (IntLiteral v) \<and> depth_of (IntLiteral v) \<le> nat (3 - depth) \<and>
       fst (generateArithmetic R depth g) = term_of (IntLiteral v)" by simp
    then show ?thesis by blast
  next
    case False
    obtain l g1 where L: "generateArithmetic R (depth + 1) g0 = (l, g1)" by force
    obtain r g2 where Rr: "generateArithmetic R (depth + 1) g1 = (r, g2)" by force
    obtain c g3 where C: "rng_call R g2 = (c, g3)" by force
    from "1.IH"(1)[OF G[symmetric] refl False] L
    obtain el where el: "arith_typed el" "depth_of el \<le> nat (3 - (depth + 1))" "l = term_of el"
      by auto
    from "1.IH"(2)[OF G[symmetric] refl False L[symmetric] refl] Rr
    obtain er where er: "arith_typed er" "depth_of er \<le> nat (3 - (depth + 1))" "r = term_of er"
      by auto
    have le: "depth \<le> 2" using arith_guard_False_depth[of R depth g g0] G False by simp
    have res: "generateArithmetic R depth g = (mkTerm (arith_kind c) [l, r], g3)"
      using generateArithmetic_step[of R depth g g0 l g1 r g2 c g3] G False L Rr C by simp
    let ?e = "Operation (arith_kind c) [el, er]"
    have "arith_typed ?e" using el er by (simp add: arith_kind_arithmetic)
    moreover have "depth_of ?e \<le> nat (3 - depth)" using el er le by simp
    moreover have "fst (generateArithmetic R depth g) = term_of ?e" using res el er by simp
    ultimately show ?thesis by blast
  qed
qed

lemma generateBooleanExpr_stop:
  "bool_guard R depth g = (True, g0) \<Longrightarrow> generateBooleanExpr R depth g = bool_leaf R g0"
  by (subst generateBooleanExpr.simps) simp

lemma generateBooleanExpr_step:
  "bool_guard R depth g = (False, g0) \<Longrightarrow>
   generateBooleanExpr R (depth + 1) g0 = (l, g1) \<Longrightarrow>
   generateBooleanExpr R (depth + 1) g1 = (r, g2) \<Longrightarrow>
   rng_call R g2 = (c, g3) \<Longrightarrow>
   generateBooleanExpr R depth g = (mkTerm (connective_kind c) [l, r], g3)"
  by (subst generateBooleanExpr.simps) simp

lemma compare_kind_comparison: "comparison_kind (compare_kind r)"
  by (simp add: compare_kind_def comparison_kind_def)

lemma connective_kind_boolean: "boolean_kind (connective_kind r)"
  by (simp add: connective_kind_def boolean_kind_def)

lemma bool_guard_False_depth: "bool_guard R depth g = (False, g0) \<Longrightarrow> depth \<le> 1"
  by (auto simp: bool_guard_def split: if_splits prod.splits)

lemma bool_leaf_literal:
  "rng_call R g0 = (c, g1) \<Longrightarrow> c mod 2 = 0 \<Longrightarrow> bool_leaf R g0 = generateBoolean R g1"
  by (simp add: bool_leaf_def)

lemma bool_leaf_comparison:
  "rng_call R g0 = (c, g1) \<Longrightarrow> c mod 2 \<noteq> 0 \<Longrightarrow>
   generateArithmetic R 0 g1 = (l, g2) \<Longrightarrow>
   generateArithmetic R 0 g2 = (r, g3) \<Longrightarrow>
   rng_call R g3 = (k, g4) \<Longrightarrow>
   bool_leaf R g0 = (mkTerm (compare_kind k) [l, r], g4)"
  by (simp add: bool_leaf_def)

lemma bool_leaf_shape:
  "\<exists>e. bool_typed e \<and> depth_of e \<le> 4 \<and> fst (bool_leaf R g0) = term_of e"
proof -
  obtain c g1 where C: "rng_call R g0 = (c, g1)" by force
  show ?thesis
  proof (cases "c mod 2 = 0")
    case True
    obtain b g2 where B: "rng_call R g1 = (b, g2)" by force
    have "fst (bool_leaf R g0) = term_of (BoolLiteral (b mod 2 = 1))"
      using bool_leaf_literal[OF C True] B by (simp add: generateBoolean_def)
    moreover have "bool_typed (BoolLiteral (b mod 2 = 1))" by simp
    moreover have "depth_of (BoolLiteral (b mod 2 = 1)) \<le> 4" by simp
    ultimately show ?thesis by blast
  next
    case False
    obtain l g2 where L: "generateArithmetic R 0 g1 = (l, g2)" by force
    obtain r g3 where Rr: "generateArithmetic R 0 g2 = (r, g3)" by force
    obtain k g4 where K: "rng_call R g3 = (k, g4)" by force
    from generateArithmetic_shape[of 0 R g1] L
    obtain el where el: "arith_typed el" "depth_of el \<le> 3" "l = term_of el" by auto
    from generateArithmetic_shape[of 0 R g2] Rr
    obtain er where er: "arith_typed er" "depth_of er \<le> 3" "r = term_of er" by auto
    let ?e = "Operation (compare_kind k) [el, er]"
    have "fst (bool_leaf R g0) = term_of ?e"
      using bool_leaf_comparison[OF C False L Rr K] el er by simp
    moreover have "bool_typed ?e" using el er by (simp add: compare_kind_comparison)
    moreover have "depth_of ?e \<le> 4" using el er by simp
    ultimately show ?thesis by blast
  qed
qed

lemma generateBooleanExpr_shape:
  "\<exists>e. bool_typed e \<and> depth_of e \<le> 4 + nat (2 - depth) \<and>
       fst (generateBooleanExpr R depth g) = term_of e"
proof (induction R depth g rule: generateBooleanExpr.induct)
  case (1 R depth g)
  obtain stop g0 where G: "bool_guard R depth g = (stop, g0)" by force
  show ?case
  proof (cases stop)
    case True
    then have "generateBooleanExpr R depth g = bool_leaf R g0"
      using generateBooleanExpr_stop[of R depth g g0] G by simp
    then show ?thesis using bool_leaf_shape[of R g0] by auto
  next
    case False
    obtain l g1 where L: "generateBooleanExpr R (depth + 1) g0 = (l, g1)" by force
    obtain r g2 where Rr: "generateBooleanExpr R (depth + 1) g1 = (r, g2)" by force
    obtain c g3 where C: "rng_call R g2 = (c, g3)" by force
    from "1.IH"(1)[OF G[symmetric] refl False] L
    obtain el where el: "bool_typed el" "depth_of el \<le> 4 + nat (2 - (depth + 1))"
      "l = term_of el" by auto
    from "1.IH"(2)[OF G[symmetric] refl False L[symmetric] refl] Rr
    obtain er where er: "bool_typed er" "depth_of er \<le> 4 + nat (2 - (depth + 1))"
      "r = term_of er" by auto
    have le: "depth \<le> 1" using bool_guard_False_depth[of R depth g g0] G False by simp
    have res: "generateBooleanExpr R depth g = (mkTerm (connective_kind c) [l, r], g3)"
      using generateBooleanExpr_step[of R depth g g0 l g1 r g2 c g3] G False L Rr C by simp
    let ?e = "Operation (connective_kind c) [el, er]"
    have "bool_typed ?e" using el er by (simp add: connective_kind_boolean)
    moreover have "nat (2 - depth) = Suc (nat (2 - (depth + 1)))" using le by arith
    then have "depth_of ?e \<le> 4 + nat (2 - depth)" using el(2) er(2) by simp
    moreover have "fst (generateBooleanExpr R depth g) = term_of ?e" using res el er by simp
    ultimately show ?thesis by blast
  qed
qed

section \<open>The printed form of a term\<close>

lemma foldl_children:
  "foldl (\<lambda>result child. result @ '' '' @ toString child) acc ts =
   acc @ concat (map (\<lambda>t. '' '' @ toString t) ts)"
  by (induction ts arbitrary: acc) simp_all

lemma toString_mkTerm:
  "toString (mkTerm k ts) =
   ''('' @ kind_str k @ concat (map (\<lambda>t. '' '' @ toString t) ts) @ '')''"
  unfolding mkTerm_def foldl_children by simp

lemma max_nesting_skip:
  "CHR ''('' \<notin> set s \<Longrightarrow> CHR '')'' \<notin> set s \<Longrightarrow>
   max_nesting lvl (s @ rest) = max_nesting lvl rest"
  by (induction s) auto

lemma digit_char_set: "d < 10 \<Longrightarrow> digit_char d \<in> set ''0123456789''"
proof -
  assume "d < 10"
  then have "d = 0 \<or> d = 1 \<or> d = 2 \<or> d = 3 \<or> d = 4 \<or> d = 5 \<or> d = 6 \<or> d = 7 \<or> d = 8 \<or> d = 9"
    by arith
  then show ?thesis by (elim disjE) (simp_all add: digit_char_def)
qed

lemma to_string_nat_chars: "c \<in> set (to_string_nat n) \<Longrightarrow> c \<in> set ''0123456789''"
proof (induction n rule: to_string_nat.induct)
  case (1 n)
  show ?case
  proof (cases "n < 10")
    case True
    have "to_string_nat n = [digit_char n]" using True by (subst to_string_nat.simps) simp
    then have "c = digit_char n" using "1.prems" by simp
    then show ?thesis using digit_char_set[OF True] by simp
  next
    case False
    have "n mod 10 < 10" by simp
    then have d: "digit_char (n mod 10) \<in> set ''0123456789''" by (rule digit_char_set)
    have "to_string_nat n = to_string_nat (n div 10) @ [digit_char (n mod 10)]"
      using False by (subst to_string_nat.simps) simp
    then have "c \<in> set (to_string_nat (n div 10)) \<or> c = digit_char (n mod 10)"
      using "1.prems" by auto
    then show ?thesis using d "1.IH"[OF False] by blast
  qed
qed

lemma to_string_nat_nonempty: "to_string_nat n \<noteq> []"
  by (subst to_string_nat.simps) simp

lemma to_string_chars: "c \<in> set (to_string v) \<Longrightarrow> c \<in> set ''-0123456789''"
proof (cases "v < 0")
  case True
  assume "c \<in> set (to_string v)"
  then have "c = CHR ''-'' \<or> c \<in> set (to_string_nat (nat (- v)))"
    using True by (simp add: to_string_def)
  then show ?thesis using to_string_nat_chars[of c "nat (- v)"] by fastforce
next
  case False
  assume "c \<in> set (to_string v)"
  then have "c \<in> set (to_string_nat (nat v))"
    using False by (simp add: to_string_def)
  then show ?thesis using to_string_nat_chars[of c "nat v"] by simp
qed

lemma to_string_no_paren: "CHR ''('' \<notin> set (to_string v)" "CHR '')'' \<notin> set (to_string v)"
  using to_string_chars[of "CHR ''(''" v] to_string_chars[of "CHR '')''" v] by auto

lemma kind_str_no_paren: "CHR ''('' \<notin> set (kind_str k)" "CHR '')'' \<notin> set (kind_str k)"
  by (cases k; simp)+

lemma max_nesting_ge: "lvl \<le> max_nesting lvl s"
proof (induction s arbitrary: lvl)
  case Nil
  show ?case by simp
next
  case (Cons c cs)
  show ?case
  proof (cases "c = CHR ''(''")
    case True
    then show ?thesis using Cons[of "Suc lvl"] by simp
  next
    case False
    then show ?thesis using Cons[of lvl] by (simp add: le_max_iff_disj)
  qed
qed

lemma max_nesting_children:
  assumes "\<And>c lvl rest. c \<in> set cs \<Longrightarrow>
     max_nesting lvl (toString (term_of c) @ rest) = max (lvl + depth_of c) (max_nesting lvl rest)"
  shows "max_nesting l (concat (map (\<lambda>t. '' '' @ toString t) (map term_of cs)) @ r) =
         max (l + foldr max (map depth_of cs) 0) (max_nesting l r)"
  using assms
proof (induction cs)
  case Nil
  show ?case using max_nesting_ge[of l r] by simp
next
  case (Cons c cs)
  have hd: "max_nesting l (toString (term_of c) @ rest) =
        max (l + depth_of c) (max_nesting l rest)" for rest
    using Cons.prems[of c l rest] by simp
  have tl: "max_nesting l (concat (map (\<lambda>t. '' '' @ toString t) (map term_of cs)) @ r) =
         max (l + foldr max (map depth_of cs) 0) (max_nesting l r)"
    using Cons.IH Cons.prems by simp
  have "max_nesting l (concat (map (\<lambda>t. '' '' @ toString t) (map term_of (c # cs))) @ r) =
        max_nesting l (toString (term_of c) @ (concat (map (\<lambda>t. '' '' @ toString t) (map term_of cs)) @ r))"
    by simp
  also have "\<dots> = max (l + depth_of c) (max (l + foldr max (map depth_of cs) 0) (max_nesting l r))"
    unfolding hd tl ..
  also have "\<dots> = max (l + foldr max (map depth_of (c # cs)) 0) (max_nesting l r)"
    by (simp add: max.assoc nat_add_max_right)
  finally show ?case .
qed

lemma max_nesting_term_of:
  "max_nesting lvl (toString (term_of e) @ rest) = max (lvl + depth_of e) (max_nesting lvl rest)"
proof (induction e arbitrary: lvl rest)
  case (IntLiteral v)
  have "max_nesting lvl (to_string v @ rest) = max_nesting lvl rest"
    using to_string_no_paren by (rule max_nesting_skip)
  then show ?case using max_nesting_ge[of lvl rest] by (simp add: mkInteger_def)
next
  case (BoolLiteral b)
  show ?case using max_nesting_ge[of lvl rest] by (simp add: mkBoolean_def)
next
  case (Operation k cs)
  have "max_nesting lvl (toString (term_of (Operation k cs)) @ rest) =
        max_nesting (Suc lvl) (kind_str k @ concat (map (\<lambda>t. '' '' @ toString t) (map term_of cs)) @ '')'' @ rest)"
    by (simp add: toString_mkTerm)
  also have "\<dots> = max_nesting (Suc lvl) (concat (map (\<lambda>t. '' '' @ toString t) (map term_of cs)) @ '')'' @ rest)"
    using kind_str_no_paren by (rule max_nesting_skip)
  also have "\<dots> = max (Suc lvl + foldr max (map depth_of cs) 0) (max_nesting (Suc lvl) ('')'' @ rest))"
    by (rule max_nesting_children) (rule Operation.IH)
  also have "\<dots> = max (lvl + depth_of (Operation k cs)) (max_nesting lvl rest)"
    using max_nesting_ge[of lvl rest] by simp
  finally show ?case .
qed

lemma term_depth_term_of: "term_depth (term_of e) = depth_of e"
  using max_nesting_term_of[of 0 e "[]"] by (simp add: term_depth_def)

text \<open>Literals, arithmetic operations, comparisons and connectives print differently.\<close>

lemma hd_toString_mkTerm: "hd (toString (mkTerm k ts)) = CHR ''(''"
  by (simp add: toString_mkTerm)

lemma toString_mkTerm_second: "toString (mkTerm k ts) ! Suc 0 = hd (kind_str k)"
  by (cases k) (simp_all add: toString_mkTerm)

lemma hd_to_string_not_paren: "hd (to_string v) \<noteq> CHR ''(''"
proof -
  have "to_string v \<noteq> []" using to_string_nat_nonempty by (simp add: to_string_def)
  then have "hd (to_string v) \<in> set (to_string v)" by simp
  then show ?thesis using to_string_no_paren(1)[of v] by metis
qed

lemma mkTerm_not_mkInteger: "mkTerm k ts \<noteq> mkInteger v"
proof
  assume "mkTerm k ts = mkInteger v"
  then have "hd (toString (mkTerm k ts)) = hd (to_string v)" by (simp add: mkInteger_def)
  then show False using hd_to_string_not_paren[of v] by (simp add: hd_toString_mkTerm)
qed

lemma mkTerm_not_mkBoolean: "mkTerm k ts \<noteq> mkBoolean b"
proof
  assume "mkTerm k ts = mkBoolean b"
  then have "hd (toString (mkTerm k ts)) = hd (toString (mkBoolean b))" by simp
  then show False by (simp add: hd_toString_mkTerm mkBoolean_def split: if_splits)
qed

lemma comparison_not_connective:
  "comparison_kind k \<Longrightarrow> boolean_kind k' \<Longrightarrow> mkTerm k ts \<noteq> mkTerm k' ts'"
proof
  assume k: "comparison_kind k" and k': "boolean_kind k'" and eq: "mkTerm k ts = mkTerm k' ts'"
  from eq have "toString (mkTerm k ts) ! Suc 0 = toString (mkTerm k' ts') ! Suc 0" by simp
  then have "hd (kind_str k) = hd (kind_str k')" by (simp add: toString_mkTerm_second)
  then show False using k k' by (auto simp: comparison_kind_def boolean_kind_def)
qed

lemma hd_to_string_digit: "hd (to_string v) \<in> set ''-0123456789''"
proof -
  have "to_string v \<noteq> []" using to_string_nat_nonempty by (simp add: to_string_def)
  then have "hd (to_string v) \<in> set (to_string v)" by simp
  then show ?thesis by (rule to_string_chars)
qed

lemma mkInteger_not_mkBoolean: "mkInteger v \<noteq> mkBoolean b"
proof
  assume "mkInteger v = mkBoolean b"
  then have "hd (to_string v) = hd (if b then ''true'' else ''false'')"
    by (simp add: mkInteger_def mkBoolean_def)
  then show False using hd_to_string_digit[of v] by (auto split: if_splits)
qed

lemma arithmetic_not_other:
  "arithmetic_kind k \<Longrightarrow> comparison_kind k' \<or> boolean_kind k' \<Longrightarrow>
   mkTerm k ts \<noteq> mkTerm k' ts'"
proof
  assume k: "arithmetic_kind k" and k': "comparison_kind k' \<or> boolean_kind k'"
    and eq: "mkTerm k ts = mkTerm k' ts'"
  from eq have "toString (mkTerm k ts) ! Suc 0 = toString (mkTerm k' ts') ! Suc 0" by simp
  then have "hd (kind_str k) = hd (kind_str k')" by (simp add: toString_mkTerm_second)
  then show False using k k'
    by (auto simp: arithmetic_kind_def comparison_kind_def boolean_kind_def)
qed

lemma typing_exclusive: "arith_typed a \<Longrightarrow> bool_typed b \<Longrightarrow> term_of a \<noteq> term_of b"
proof (cases a)
  case (IntLiteral v)
  assume "bool_typed b"
  then show ?thesis using IntLiteral
    by (cases b) (auto simp: mkInteger_not_mkBoolean mkTerm_not_mkInteger[symmetric])
next
  case (BoolLiteral x)
  assume "arith_typed a"
  then show ?thesis using BoolLiteral by simp
next
  case (Operation k cs)
  assume a: "arith_typed a" and b: "bool_typed b"
  have k: "arithmetic_kind k" using a Operation by simp
  show ?thesis
  proof (cases b)
    case (IntLiteral v)
    then show ?thesis using b by simp
  next
    case (BoolLiteral x)
    then show ?thesis using Operation by (simp add: mkTerm_not_mkBoolean)
  next
    case (Operation k' cs')
    then have "comparison_kind k' \<or> boolean_kind k'" using b by auto
    then show ?thesis using arithmetic_not_other[OF k] Operation \<open>a = Operation k cs\<close> by simp
  qed
qed

section \<open>Well-typed output\<close>

text \<open>
  C1. Every term returned by \<^verbatim>\<open>generateBooleanExpr\<close>, at any depth argument and for any
  engine, is the solver's rendering of a Boolean-typed tree: each comparison in it has
  exactly two Arithmetic-typed children and each connective exactly two Boolean-typed
  children. Every term returned by \<^verbatim>\<open>generateArithmetic\<close> is the rendering of an
  Arithmetic-typed tree, whose operators have exactly two Arithmetic-typed children.
  The two types exclude each other: a generated Boolean term renders no
  Arithmetic-typed tree, and a generated arithmetic term no Boolean-typed one.
\<close>

theorem generated_terms_well_typed:
  "(\<exists>e. bool_typed e \<and> fst (generateBooleanExpr R depth g) = term_of e) \<and>
   (\<nexists>e. arith_typed e \<and> fst (generateBooleanExpr R depth g) = term_of e) \<and>
   (\<exists>e. arith_typed e \<and> fst (generateArithmetic R depth' g') = term_of e) \<and>
   (\<nexists>e. bool_typed e \<and> fst (generateArithmetic R depth' g') = term_of e)"
proof -
  obtain b where b: "bool_typed b" "fst (generateBooleanExpr R depth g) = term_of b"
    using generateBooleanExpr_shape[of depth R g] by blast
  obtain a where a: "arith_typed a" "fst (generateArithmetic R depth' g') = term_of a"
    using generateArithmetic_shape[of depth' R g'] by blast
  have "\<nexists>e. arith_typed e \<and> fst (generateBooleanExpr R depth g) = term_of e"
    using b typing_exclusive by metis
  moreover have "\<nexists>e. bool_typed e \<and> fst (generateArithmetic R depth' g') = term_of e"
    using a typing_exclusive by metis
  ultimately show ?thesis using a b by blast
qed

theorem generated_terms_well_typed_witness:
  "fst (generateBooleanExpr script_ops 0 [0,1, 0,105, 0,107, 1, 0,103, 0,110, 2, 0, 0,0,1, 0])
     = Term ''(and (> (- 5 7) (* 3 10)) true)'' \<and>
   (\<exists>e. bool_typed e \<and>
        fst (generateBooleanExpr script_ops 0 [0,1, 0,105, 0,107, 1, 0,103, 0,110, 2, 0, 0,0,1, 0])
          = term_of e) \<and>
   (\<nexists>e. arith_typed e \<and>
        fst (generateBooleanExpr script_ops 0 [0,1, 0,105, 0,107, 1, 0,103, 0,110, 2, 0, 0,0,1, 0])
          = term_of e) \<and>
   (\<exists>e. arith_typed e \<and> fst (generateArithmetic script_ops 0 [0,105, 0,107, 1]) = term_of e) \<and>
   (\<nexists>e. bool_typed e \<and> fst (generateArithmetic script_ops 0 [0,105, 0,107, 1]) = term_of e)"
proof -
  have "fst (generateBooleanExpr script_ops 0 [0,1, 0,105, 0,107, 1, 0,103, 0,110, 2, 0, 0,0,1, 0])
     = Term ''(and (> (- 5 7) (* 3 10)) true)''"
    by code_simp
  then show ?thesis
    using generated_terms_well_typed
            [of script_ops 0 "[0,1, 0,105, 0,107, 1, 0,103, 0,110, 2, 0, 0,0,1, 0]"
                0 "[0,105, 0,107, 1]"]
    by blast
qed

section \<open>Depth of arithmetic terms\<close>

text \<open>
  C2. With the code's arithmetic cap of 2, the term returned by \<^verbatim>\<open>generateArithmetic(0)\<close>
  has depth at most \<open>2 + 1\<close>, counting a literal as depth 0: operators sit at levels 0, 1
  and 2, and the literals below the last operator are the one extra level. The depth is
  read off the printed term (its deepest nesting of parentheses).
\<close>

theorem generateArithmetic_depth_bound:
  "term_depth (fst (generateArithmetic R 0 g)) \<le> 2 + 1"
proof -
  obtain e where e: "depth_of e \<le> nat (3 - 0)" "fst (generateArithmetic R 0 g) = term_of e"
    using generateArithmetic_shape[of 0 R g] by blast
  then show ?thesis by (simp add: term_depth_term_of)
qed

theorem generateArithmetic_depth_bound_witness:
  "fst (generateArithmetic script_ops 0 (replicate 21 1))
     = Term ''(- (- (- -99 -99) (- -99 -99)) (- (- -99 -99) (- -99 -99)))'' \<and>
   term_depth (fst (generateArithmetic script_ops 0 (replicate 21 1))) = 3 \<and>
   term_depth (fst (generateArithmetic script_ops 0 (replicate 21 1))) \<le> 2 + 1"
proof -
  have "fst (generateArithmetic script_ops 0 (replicate 21 1))
     = Term ''(- (- (- -99 -99) (- -99 -99)) (- (- -99 -99) (- -99 -99)))''"
    by code_simp
  moreover have "term_depth (fst (generateArithmetic script_ops 0 (replicate 21 1))) = 3"
    by code_simp
  ultimately show ?thesis
    using generateArithmetic_depth_bound[of script_ops "replicate 21 1"] by simp
qed

section \<open>Termination\<close>

text \<open>
  \<open>generateArithmetic_rel x y\<close> says that the call at \<open>y\<close> makes the recursive call at
  \<open>x\<close>. Every recursive call is one level deeper and is made below the cap, so
  \<open>3 - depth\<close> (for Boolean expressions \<open>2 - depth\<close>) strictly decreases along calls.
\<close>

lemma generateArithmetic_rel_measure:
  "generateArithmetic_rel x y \<Longrightarrow> nat (3 - fst (snd x)) < nat (3 - fst (snd y))"
  by (erule generateArithmetic_rel.cases) (auto simp: arith_guard_def split: if_splits)

lemma generateBooleanExpr_rel_measure:
  "generateBooleanExpr_rel x y \<Longrightarrow> nat (2 - fst (snd x)) < nat (2 - fst (snd y))"
  by (erule generateBooleanExpr_rel.cases) (auto simp: bool_guard_def split: if_splits)

lemma generateArithmetic_total: "generateArithmetic_dom x"
proof (induction "nat (3 - fst (snd x))" arbitrary: x rule: less_induct)
  case less
  show ?case
  proof (rule accpI)
    fix y
    assume "generateArithmetic_rel y x"
    then have "nat (3 - fst (snd y)) < nat (3 - fst (snd x))"
      by (rule generateArithmetic_rel_measure)
    then show "generateArithmetic_dom y" by (rule less)
  qed
qed

lemma generateBooleanExpr_total: "generateBooleanExpr_dom x"
proof (induction "nat (2 - fst (snd x))" arbitrary: x rule: less_induct)
  case less
  show ?case
  proof (rule accpI)
    fix y
    assume "generateBooleanExpr_rel y x"
    then have "nat (2 - fst (snd y)) < nat (2 - fst (snd x))"
      by (rule generateBooleanExpr_rel_measure)
    then show "generateBooleanExpr_dom y" by (rule less)
  qed
qed

text \<open>
  C3. \<^verbatim>\<open>generateArithmetic\<close> and \<^verbatim>\<open>generateBooleanExpr\<close> return at every depth argument,
  for every engine and engine state: every argument lies in the domain on which the
  recursive calls terminate, and the returned term is a finite tree whose depth is
  bounded by the caps (2 for arithmetic, 1 for Boolean expressions, whose comparisons
  hold arithmetic terms of depth at most 3).
\<close>

theorem generators_terminate:
  "generateArithmetic_dom (R, depth, g) \<and>
   generateBooleanExpr_dom (R', depth', g') \<and>
   (\<exists>e. fst (generateArithmetic R depth g) = term_of e \<and> depth_of e \<le> nat (3 - depth)) \<and>
   (\<exists>e. fst (generateBooleanExpr R' depth' g') = term_of e \<and>
        depth_of e \<le> 4 + nat (2 - depth'))"
  using generateArithmetic_total[of "(R, depth, g)"]
        generateBooleanExpr_total[of "(R', depth', g')"]
        generateArithmetic_shape[of depth R g]
        generateBooleanExpr_shape[of depth' R' g']
  by blast

theorem generators_terminate_witness:
  "generateArithmetic_dom (script_ops, - 4, [1, 2, 3]) \<and>
   generateBooleanExpr_dom (script_ops, 0, []) \<and>
   (\<exists>e. fst (generateArithmetic script_ops (- 4) [1, 2, 3]) = term_of e \<and>
        depth_of e \<le> nat (3 - (- 4))) \<and>
   (\<exists>e. fst (generateBooleanExpr script_ops 0 []) = term_of e \<and>
        depth_of e \<le> 4 + nat (2 - 0))"
  using generators_terminate[of script_ops "- 4" "[1, 2, 3]" script_ops 0 "[]"] by simp

section \<open>The effects of a campaign\<close>

lemma constraint_loop_exit:
  "\<not> i < K \<Longrightarrow> constraint_loop R K i cs st = (cs, st)"
  by (subst constraint_loop.simps) simp

lemma constraint_loop_step:
  "i < K \<Longrightarrow> generateBooleanExpr R 0 (rng st) = (t, g) \<Longrightarrow>
   constraint_loop R K i cs st =
   constraint_loop R K (i + 1) (cs @ [t])
     (print_lines [''  Constraint '' @ to_string i @ '': '' @ toString t]
        (solver_assertFormula t (st\<lparr>rng := g\<rparr>)))"
  by (subst constraint_loop.simps) simp

lemma constraint_loop_effects:
  "\<exists>ts. length ts = nat (K - i) \<and> list_all boolean_term ts \<and>
        fst (constraint_loop R K i cs st) = cs @ ts \<and>
        constraints (solver (snd (constraint_loop R K i cs st))) = constraints (solver st) @ ts \<and>
        solver_calls (snd (constraint_loop R K i cs st)) =
          solver_calls st @ map CallAssertFormula ts \<and>
        cout (snd (constraint_loop R K i cs st)) = cout st @ constraint_lines i ts"
proof (induction R K i cs st rule: constraint_loop.induct)
  case (1 R K i cs st)
  show ?case
  proof (cases "i < K")
    case False
    then show ?thesis by (simp add: constraint_loop_exit)
  next
    case True
    obtain t g where G: "generateBooleanExpr R 0 (rng st) = (t, g)" by force
    let ?st3 = "print_lines [''  Constraint '' @ to_string i @ '': '' @ toString t]
        (solver_assertFormula t (st\<lparr>rng := g\<rparr>))"
    have bt: "boolean_term t"
      using generateBooleanExpr_shape[of 0 R "rng st"] G by (auto simp: boolean_term_def)
    have step: "constraint_loop R K i cs st = constraint_loop R K (i + 1) (cs @ [t]) ?st3"
      using constraint_loop_step[OF True G] .
    from "1.IH"[OF True G[symmetric] refl refl refl refl refl]
    obtain ts where ts: "length ts = nat (K - (i + 1))" "list_all boolean_term ts"
      "fst (constraint_loop R K (i + 1) (cs @ [t]) ?st3) = (cs @ [t]) @ ts"
      "constraints (solver (snd (constraint_loop R K (i + 1) (cs @ [t]) ?st3))) =
         constraints (solver ?st3) @ ts"
      "solver_calls (snd (constraint_loop R K (i + 1) (cs @ [t]) ?st3)) =
         solver_calls ?st3 @ map CallAssertFormula ts"
      "cout (snd (constraint_loop R K (i + 1) (cs @ [t]) ?st3)) =
         cout ?st3 @ constraint_lines (i + 1) ts"
      by blast
    have len: "length (t # ts) = nat (K - i)" using ts(1) True by simp
    have "list_all boolean_term (t # ts)" using bt ts(2) by simp
    moreover have "fst (constraint_loop R K i cs st) = cs @ (t # ts)"
      using step ts(3) by simp
    moreover have "constraints (solver (snd (constraint_loop R K i cs st))) =
        constraints (solver st) @ (t # ts)"
      using step ts(4) by (simp add: print_lines_def solver_assertFormula_def assertFormula_def)
    moreover have "solver_calls (snd (constraint_loop R K i cs st)) =
          solver_calls st @ map CallAssertFormula (t # ts)"
      using step ts(5) by (simp add: print_lines_def solver_assertFormula_def)
    moreover have "cout (snd (constraint_loop R K i cs st)) = cout st @ constraint_lines i (t # ts)"
      using step ts(6) by (simp add: print_lines_def solver_assertFormula_def)
    ultimately show ?thesis using len by blast
  qed
qed

lemma test_case_effects:
  "\<exists>ts. length ts = nat K \<and> list_all boolean_term ts \<and>
        constraints (solver (test_case R K n st)) = [] \<and>
        solver_calls (test_case R K n st) = solver_calls st @ test_case_calls ts \<and>
        cout (test_case R K n st) = cout st @ test_case_lines n ts"
proof -
  let ?st1 = "print_lines [''Test Case '' @ to_string (n + 1) @ '':'',
                   ''----------------------------------------------''] st"
  obtain cs st2 where L: "constraint_loop R K 0 [] ?st1 = (cs, st2)" by force
  from constraint_loop_effects[of K 0 R "[]" ?st1] L
  obtain ts where ts: "length ts = nat K" "list_all boolean_term ts"
    "solver_calls st2 = solver_calls ?st1 @ map CallAssertFormula ts"
    "cout st2 = cout ?st1 @ constraint_lines 0 ts"
    by auto
  have "constraints (solver (test_case R K n st)) = []"
    using L by (simp add: test_case_def solver_checkSat_def checkSat_def isSat_def
        solver_resetAssertions_def resetAssertions_def print_lines_def)
  moreover have "solver_calls (test_case R K n st) = solver_calls st @ test_case_calls ts"
    using L ts(3) by (simp add: test_case_def solver_checkSat_def checkSat_def isSat_def
        solver_resetAssertions_def print_lines_def test_case_calls_def)
  moreover have "cout (test_case R K n st) = cout st @ test_case_lines n ts"
    using L ts(4) by (simp add: test_case_def solver_checkSat_def checkSat_def isSat_def
        result_toString_def solver_resetAssertions_def print_lines_def test_case_lines_def)
  ultimately show ?thesis using ts(1,2) by blast
qed

lemma test_loop_exit: "\<not> n < N \<Longrightarrow> test_loop R N K n st = st"
  by (subst test_loop.simps) simp

lemma test_loop_step:
  "n < N \<Longrightarrow> test_loop R N K n st = test_loop R N K (n + 1) (test_case R K n st)"
  by (subst test_loop.simps) simp

lemma test_loop_effects:
  "\<exists>tss. length tss = nat (N - n) \<and>
         list_all (\<lambda>ts. length ts = nat K \<and> list_all boolean_term ts) tss \<and>
         solver_calls (test_loop R N K n st) = solver_calls st @ campaign_calls tss \<and>
         cout (test_loop R N K n st) = cout st @ campaign_lines n tss"
proof (induction R N K n st rule: test_loop.induct)
  case (1 R N K n st)
  show ?case
  proof (cases "n < N")
    case False
    then show ?thesis by (simp add: test_loop_exit campaign_calls_def)
  next
    case True
    obtain ts where ts: "length ts = nat K" "list_all boolean_term ts"
        "solver_calls (test_case R K n st) = solver_calls st @ test_case_calls ts"
        "cout (test_case R K n st) = cout st @ test_case_lines n ts"
      using test_case_effects[of K R n st] by blast
    from "1.IH"[OF True]
    obtain tss where tss: "length tss = nat (N - (n + 1))"
        "list_all (\<lambda>ts. length ts = nat K \<and> list_all boolean_term ts) tss"
        "solver_calls (test_loop R N K (n + 1) (test_case R K n st)) =
           solver_calls (test_case R K n st) @ campaign_calls tss"
        "cout (test_loop R N K (n + 1) (test_case R K n st)) =
           cout (test_case R K n st) @ campaign_lines (n + 1) tss"
      by blast
    have step: "test_loop R N K n st = test_loop R N K (n + 1) (test_case R K n st)"
      using True by (rule test_loop_step)
    have "length (ts # tss) = nat (N - n)" using tss(1) True by simp
    moreover have "list_all (\<lambda>ts. length ts = nat K \<and> list_all boolean_term ts) (ts # tss)"
      using ts(1,2) tss(2) by simp
    moreover have "solver_calls (test_loop R N K n st) = solver_calls st @ campaign_calls (ts # tss)"
      using step ts(3) tss(3) by (simp add: campaign_calls_def)
    moreover have "cout (test_loop R N K n st) = cout st @ campaign_lines n (ts # tss)"
      using step ts(4) tss(4) by simp
    ultimately show ?thesis by blast
  qed
qed

lemma fuzz_effects:
  "\<exists>tss. length tss = nat N \<and>
         list_all (\<lambda>ts. length ts = nat K \<and> list_all boolean_term ts) tss \<and>
         solver_calls (fuzz R N K st) = solver_calls st @ campaign_calls tss \<and>
         cout (fuzz R N K st) = cout st @ header_lines @ campaign_lines 0 tss @ footer_lines N"
proof -
  let ?st1 = "print_lines header_lines st"
  obtain tss where tss: "length tss = nat (N - 0)"
      "list_all (\<lambda>ts. length ts = nat K \<and> list_all boolean_term ts) tss"
      "solver_calls (test_loop R N K 0 ?st1) = solver_calls ?st1 @ campaign_calls tss"
      "cout (test_loop R N K 0 ?st1) = cout ?st1 @ campaign_lines 0 tss"
    using test_loop_effects[of N 0 K R ?st1] by blast
  have f: "fuzz R N K st = print_lines (footer_lines N) (test_loop R N K 0 ?st1)"
    by (simp add: fuzz_def header_lines_def footer_lines_def)
  have "solver_calls (fuzz R N K st) = solver_calls st @ campaign_calls tss"
    using tss(3) by (simp add: f print_lines_def)
  moreover have "cout (fuzz R N K st) =
      cout st @ header_lines @ campaign_lines 0 tss @ footer_lines N"
    using tss(4) by (simp add: f print_lines_def)
  ultimately show ?thesis using tss(1,2) by auto
qed

lemma call_names_test_case:
  "map call_name (test_case_calls ts) =
   replicate (length ts) ''assertFormula'' @ [''checkSat'', ''resetAssertions'']"
  by (induction ts) (simp_all add: test_case_calls_def)

lemma call_names_campaign:
  "list_all (\<lambda>ts. length ts = k \<and> P ts) tss \<Longrightarrow>
   map call_name (campaign_calls tss) =
   concat (replicate (length tss)
             (replicate k ''assertFormula'' @ [''checkSat'', ''resetAssertions'']))"
proof (induction tss)
  case Nil
  show ?case by (simp add: campaign_calls_def)
next
  case (Cons ts tss)
  then have "map call_name (campaign_calls tss) =
      concat (replicate (length tss)
             (replicate k ''assertFormula'' @ [''checkSat'', ''resetAssertions'']))"
    and "length ts = k" by simp_all
  then show ?case using call_names_test_case[of ts] by (simp add: campaign_calls_def)
qed

text \<open>
  C6. A campaign \<open>fuzz(N, K)\<close> runs exactly \<open>N\<close> test cases (none when \<open>N\<close> is negative):
  the calls it makes on the solver are \<open>N\<close> blocks, each of exactly \<open>K\<close> calls of
  \<^verbatim>\<open>assertFormula\<close> on freshly generated Boolean-typed terms, then one \<^verbatim>\<open>checkSat\<close>, then one
  \<^verbatim>\<open>resetAssertions\<close>; and it prints one block of lines per test case, listing those
  \<open>K\<close> terms and one result.
\<close>

theorem fuzz_campaign_structure:
  "\<exists>tss. length tss = nat N \<and>
         list_all (\<lambda>ts. length ts = nat K \<and> list_all boolean_term ts) tss \<and>
         solver_calls (fuzz R N K st) = solver_calls st @ campaign_calls tss \<and>
         map call_name (campaign_calls tss) =
           concat (replicate (nat N)
                     (replicate (nat K) ''assertFormula'' @ [''checkSat'', ''resetAssertions''])) \<and>
         cout (fuzz R N K st) = cout st @ header_lines @ campaign_lines 0 tss @ footer_lines N"
proof -
  obtain tss where tss: "length tss = nat N"
      "list_all (\<lambda>ts. length ts = nat K \<and> list_all boolean_term ts) tss"
      "solver_calls (fuzz R N K st) = solver_calls st @ campaign_calls tss"
      "cout (fuzz R N K st) = cout st @ header_lines @ campaign_lines 0 tss @ footer_lines N"
    using fuzz_effects[of N K R st] by blast
  have "map call_name (campaign_calls tss) =
           concat (replicate (nat N)
                     (replicate (nat K) ''assertFormula'' @ [''checkSat'', ''resetAssertions'']))"
    using call_names_campaign[OF tss(2)] tss(1) by simp
  then show ?thesis using tss by blast
qed

theorem fuzz_campaign_structure_witness:
  "cout (fuzz script_ops 2 1 (script_fuzzer [0,0,1, 0,0,0, 1, 0,1, 0,103, 0,104, 0, 0,105, 0,106, 2, 1, 0,0,1, 2])) =
     [''TypeFuzz Prototype - My C++ Implementation'',
      ''=============================================='',
      ''Using cvc5 C++ API for constraint generation and solving'',
      [],
      ''Test Case 1:'',
      ''----------------------------------------------'',
      ''  Constraint 0: (or true false)'',
      ''  Satisfiability: sat'',
      ''  SATISFIABLE - Constraints are consistent'',
      ''----------------------------------------------'',
      [],
      ''Test Case 2:'',
      ''----------------------------------------------'',
      ''  Constraint 0: (xor (< (+ 3 4) (* 5 6)) true)'',
      ''  Satisfiability: sat'',
      ''  SATISFIABLE - Constraints are consistent'',
      ''----------------------------------------------'',
      [],
      ''=============================================='',
      ''TypeFuzz completed 2 test cases'',
      ''Note: This uses mock cvc5 classes for demonstration.'',
      ''      Replace with #include <cvc5/cvc5.h> for real usage.''] \<and>
   solver_calls (fuzz script_ops 2 1 (script_fuzzer [0,0,1, 0,0,0, 1, 0,1, 0,103, 0,104, 0, 0,105, 0,106, 2, 1, 0,0,1, 2])) =
     [CallAssertFormula (Term ''(or true false)''), CallCheckSat, CallResetAssertions,
      CallAssertFormula (Term ''(xor (< (+ 3 4) (* 5 6)) true)''), CallCheckSat, CallResetAssertions] \<and>
   (\<exists>tss. length tss = nat 2 \<and>
         list_all (\<lambda>ts. length ts = nat 1 \<and> list_all boolean_term ts) tss \<and>
         solver_calls (fuzz script_ops 2 1 (script_fuzzer [0,0,1, 0,0,0, 1, 0,1, 0,103, 0,104, 0, 0,105, 0,106, 2, 1, 0,0,1, 2])) =
           solver_calls (script_fuzzer [0,0,1, 0,0,0, 1, 0,1, 0,103, 0,104, 0, 0,105, 0,106, 2, 1, 0,0,1, 2]) @ campaign_calls tss \<and>
         map call_name (campaign_calls tss) =
           concat (replicate (nat 2)
                     (replicate (nat 1) ''assertFormula'' @ [''checkSat'', ''resetAssertions''])) \<and>
         cout (fuzz script_ops 2 1 (script_fuzzer [0,0,1, 0,0,0, 1, 0,1, 0,103, 0,104, 0, 0,105, 0,106, 2, 1, 0,0,1, 2])) =
           cout (script_fuzzer [0,0,1, 0,0,0, 1, 0,1, 0,103, 0,104, 0, 0,105, 0,106, 2, 1, 0,0,1, 2]) @
           header_lines @ campaign_lines 0 tss @ footer_lines 2)"
proof (intro conjI)
  show "cout (fuzz script_ops 2 1 (script_fuzzer [0,0,1, 0,0,0, 1, 0,1, 0,103, 0,104, 0, 0,105, 0,106, 2, 1, 0,0,1, 2])) =
     [''TypeFuzz Prototype - My C++ Implementation'',
      ''=============================================='',
      ''Using cvc5 C++ API for constraint generation and solving'',
      [],
      ''Test Case 1:'',
      ''----------------------------------------------'',
      ''  Constraint 0: (or true false)'',
      ''  Satisfiability: sat'',
      ''  SATISFIABLE - Constraints are consistent'',
      ''----------------------------------------------'',
      [],
      ''Test Case 2:'',
      ''----------------------------------------------'',
      ''  Constraint 0: (xor (< (+ 3 4) (* 5 6)) true)'',
      ''  Satisfiability: sat'',
      ''  SATISFIABLE - Constraints are consistent'',
      ''----------------------------------------------'',
      [],
      ''=============================================='',
      ''TypeFuzz completed 2 test cases'',
      ''Note: This uses mock cvc5 classes for demonstration.'',
      ''      Replace with #include <cvc5/cvc5.h> for real usage.'']"
    by code_simp
  show "solver_calls (fuzz script_ops 2 1 (script_fuzzer [0,0,1, 0,0,0, 1, 0,1, 0,103, 0,104, 0, 0,105, 0,106, 2, 1, 0,0,1, 2])) =
     [CallAssertFormula (Term ''(or true false)''), CallCheckSat, CallResetAssertions,
      CallAssertFormula (Term ''(xor (< (+ 3 4) (* 5 6)) true)''), CallCheckSat, CallResetAssertions]"
    by code_simp
  show "\<exists>tss. length tss = nat 2 \<and>
         list_all (\<lambda>ts. length ts = nat 1 \<and> list_all boolean_term ts) tss \<and>
         solver_calls (fuzz script_ops 2 1 (script_fuzzer [0,0,1, 0,0,0, 1, 0,1, 0,103, 0,104, 0, 0,105, 0,106, 2, 1, 0,0,1, 2])) =
           solver_calls (script_fuzzer [0,0,1, 0,0,0, 1, 0,1, 0,103, 0,104, 0, 0,105, 0,106, 2, 1, 0,0,1, 2]) @ campaign_calls tss \<and>
         map call_name (campaign_calls tss) =
           concat (replicate (nat 2)
                     (replicate (nat 1) ''assertFormula'' @ [''checkSat'', ''resetAssertions''])) \<and>
         cout (fuzz script_ops 2 1 (script_fuzzer [0,0,1, 0,0,0, 1, 0,1, 0,103, 0,104, 0, 0,105, 0,106, 2, 1, 0,0,1, 2])) =
           cout (script_fuzzer [0,0,1, 0,0,0, 1, 0,1, 0,103, 0,104, 0, 0,105, 0,106, 2, 1, 0,0,1, 2]) @
           header_lines @ campaign_lines 0 tss @ footer_lines 2"
    by (rule fuzz_campaign_structure)
qed

section \<open>The solver's assertion state\<close>

text \<open>
  C9. \<^verbatim>\<open>assertFormula\<close> appends the formula to the accumulated constraints and leaves the
  earlier ones as they were, in order; \<^verbatim>\<open>resetAssertions\<close> empties them whatever they
  were; \<^verbatim>\<open>checkSat\<close> leaves the solver unchanged, so a second \<^verbatim>\<open>checkSat\<close> with nothing
  reasserted gives the same result.
\<close>

theorem solver_state_frame:
  "constraints (assertFormula formula s) = constraints s @ [formula] \<and>
   take (length (constraints s)) (constraints (assertFormula formula s)) = constraints s \<and>
   constraints (resetAssertions s) = [] \<and>
   snd (checkSat s) = s \<and>
   checkSat (snd (checkSat s)) = checkSat s \<and>
   isSat (fst (checkSat (snd (checkSat s)))) = isSat (fst (checkSat s))"
  by (simp add: assertFormula_def resetAssertions_def checkSat_def)

theorem solver_state_frame_witness:
  "constraints (assertFormula (Term ''(> 1 2)'') \<lparr>constraints = [Term ''true'']\<rparr>) =
     [Term ''true'', Term ''(> 1 2)''] \<and>
   constraints (resetAssertions \<lparr>constraints = [Term ''true'']\<rparr>) = [] \<and>
   snd (checkSat \<lparr>constraints = [Term ''true'']\<rparr>) = \<lparr>constraints = [Term ''true'']\<rparr> \<and>
   checkSat (snd (checkSat \<lparr>constraints = [Term ''true'']\<rparr>)) =
     checkSat \<lparr>constraints = [Term ''true'']\<rparr>"
  using solver_state_frame[of "Term ''(> 1 2)''" "\<lparr>constraints = [Term ''true'']\<rparr>"]
  by simp

section \<open>The mock verdict\<close>

lemma constraint_lines_not_verdict:
  "''  UNSATISFIABLE - Constraints are inconsistent'' \<notin> set (constraint_lines i ts) \<and>
   ''  Satisfiability: unsat'' \<notin> set (constraint_lines i ts) \<and>
   ''  Satisfiability: sat'' \<notin> set (constraint_lines i ts)"
  by (induction ts arbitrary: i) simp_all

lemma campaign_lines_verdicts:
  "''  UNSATISFIABLE - Constraints are inconsistent'' \<notin> set (campaign_lines n tss) \<and>
   ''  Satisfiability: unsat'' \<notin> set (campaign_lines n tss) \<and>
   length (filter (\<lambda>l. l = ''  Satisfiability: sat'') (campaign_lines n tss)) = length tss"
proof (induction tss arbitrary: n)
  case Nil
  show ?case by simp
next
  case (Cons ts tss)
  have "filter (\<lambda>l. l = ''  Satisfiability: sat'') (constraint_lines 0 ts) = []"
    using constraint_lines_not_verdict[of 0 ts] by (auto simp: filter_empty_conv)
  then show ?case
    using Cons[of "n + 1"] constraint_lines_not_verdict[of 0 ts]
    by (simp add: test_case_lines_def)
qed

text \<open>
  C10. The mock \<^verbatim>\<open>isSat\<close> is true for every \<^verbatim>\<open>checkSat\<close>, whatever was asserted, so
  \<^verbatim>\<open>isUnsat\<close> is false and the result prints as \<open>sat\<close>; a campaign prints \<open>sat\<close> for each of
  its test cases and never prints the line of the \<^verbatim>\<open>UNSATISFIABLE\<close> branch.
\<close>

theorem mock_solver_always_sat:
  "isSat (fst (checkSat s)) \<and> \<not> isUnsat (fst (checkSat s)) \<and>
   result_toString (fst (checkSat s)) = ''sat'' \<and>
   (\<exists>printed. cout (fuzz R N K st) = cout st @ printed \<and>
      ''  UNSATISFIABLE - Constraints are inconsistent'' \<notin> set printed \<and>
      ''  Satisfiability: unsat'' \<notin> set printed \<and>
      length (filter (\<lambda>l. l = ''  Satisfiability: sat'') printed) = nat N)"
proof -
  obtain tss where tss: "length tss = nat N"
      "cout (fuzz R N K st) = cout st @ header_lines @ campaign_lines 0 tss @ footer_lines N"
    using fuzz_effects[of N K R st] by blast
  let ?printed = "header_lines @ campaign_lines 0 tss @ footer_lines N"
  have "''  UNSATISFIABLE - Constraints are inconsistent'' \<notin> set ?printed"
    using campaign_lines_verdicts[of 0 tss] by (simp add: header_lines_def footer_lines_def)
  moreover have "''  Satisfiability: unsat'' \<notin> set ?printed"
    using campaign_lines_verdicts[of 0 tss] by (simp add: header_lines_def footer_lines_def)
  moreover have "length (filter (\<lambda>l. l = ''  Satisfiability: sat'') ?printed) = nat N"
    using campaign_lines_verdicts[of 0 tss] tss(1)
    by (simp add: header_lines_def footer_lines_def)
  moreover have "isSat (fst (checkSat s)) \<and> \<not> isUnsat (fst (checkSat s)) \<and>
   result_toString (fst (checkSat s)) = ''sat''"
    by (simp add: isSat_def isUnsat_def result_toString_def)
  ultimately show ?thesis using tss(2) by blast
qed

theorem mock_solver_always_sat_witness:
  "isSat (fst (checkSat \<lparr>constraints = [Term ''false'']\<rparr>)) \<and>
   \<not> isUnsat (fst (checkSat \<lparr>constraints = [Term ''false'']\<rparr>)) \<and>
   result_toString (fst (checkSat \<lparr>constraints = [Term ''false'']\<rparr>)) = ''sat'' \<and>
   (\<exists>printed. cout (fuzz script_ops 2 1 (script_fuzzer [0, 0, 1, 0, 0, 0, 1])) =
        cout (script_fuzzer [0, 0, 1, 0, 0, 0, 1]) @ printed \<and>
      ''  UNSATISFIABLE - Constraints are inconsistent'' \<notin> set printed \<and>
      ''  Satisfiability: unsat'' \<notin> set printed \<and>
      length (filter (\<lambda>l. l = ''  Satisfiability: sat'') printed) = nat 2)"
  by (rule mock_solver_always_sat)

section \<open>The branches of generateArithmetic\<close>

lemma word_mod_3_cases: "(r :: 32 word) mod 3 = 0 \<or> r mod 3 = 1 \<or> r mod 3 = 2"
proof -
  have "unat (r mod 3) = unat r mod 3" by (simp add: unat_mod_distrib)
  then have "unat (r mod 3) < 3" by simp
  then have "unat (r mod 3) = 0 \<or> unat (r mod 3) = 1 \<or> unat (r mod 3) = 2" by arith
  then show ?thesis by (auto simp: word_unat_eq_iff)
qed

lemma arith_kind_alt:
  "arith_kind r = (if r mod 3 = 0 then ADD else if r mod 3 = 1 then SUB else MULT)"
  using word_mod_3_cases[of r] by (auto simp: arith_kind_def)

lemma arith_guard_eq:
  "arith_guard R depth g =
     (depth > 2 \<or> (depth > 0 \<and> fst (rng_call R g) mod 3 = 0),
      if depth > 2 then g else if depth > 0 then snd (rng_call R g) else g)"
  by (auto simp: arith_guard_def split: prod.splits)

lemma script_uniform_in_range: "uniform_in_range script_ops"
proof -
  have "lo \<le> lo + int (unat r mod nat (hi - lo + 1)) \<and>
        lo + int (unat r mod nat (hi - lo + 1)) \<le> hi"
    if "lo \<le> hi" for lo hi :: int and r :: "32 word"
  proof -
    have "0 < nat (hi - lo + 1)" using that by simp
    then have "unat r mod nat (hi - lo + 1) < nat (hi - lo + 1)" by (rule mod_less_divisor)
    then show ?thesis by linarith
  qed
  then show ?thesis
    by (simp add: uniform_in_range_def script_ops_def script_uniform_def split: prod.splits)
qed

text \<open>
  C5. \<^verbatim>\<open>generateArithmetic(depth)\<close> returns an integer literal exactly when \<open>depth > 2\<close> or
  (\<open>depth > 0\<close> and the coin \<^verbatim>\<open>rng() % 3 == 0\<close> comes up true); the literal is the one
  \<^verbatim>\<open>generateInteger\<close> draws from \<open>[-100, 100]\<close>. Otherwise it generates the left and then
  the right subterm at \<open>depth + 1\<close>, picks Add, Sub or Mult by a further draw modulo 3
  (the \<^verbatim>\<open>default\<close> branch is never taken) and returns the operation over
  \<open>[left, right]\<close>. That the library's distribution delivers a value of the requested
  range is the hypothesis \<open>uniform_in_range\<close>; how likely each draw is lies outside the
  model.
\<close>

theorem generateArithmetic_branches:
  assumes "uniform_in_range R"
  shows
   "(depth > 2 \<or> (depth > 0 \<and> fst (rng_call R g) mod 3 = 0) \<longrightarrow>
       generateArithmetic R depth g =
         generateInteger R (- 100) 100 (if depth > 2 then g else snd (rng_call R g)) \<and>
       (\<exists>v. - 100 \<le> v \<and> v \<le> 100 \<and> fst (generateArithmetic R depth g) = mkInteger v)) \<and>
    (\<not> (depth > 2 \<or> (depth > 0 \<and> fst (rng_call R g) mod 3 = 0)) \<longrightarrow>
       (\<forall>v. fst (generateArithmetic R depth g) \<noteq> mkInteger v) \<and>
       generateArithmetic R depth g =
         (let g0 = (if depth > 0 then snd (rng_call R g) else g);
              (left, g1) = generateArithmetic R (depth + 1) g0;
              (right, g2) = generateArithmetic R (depth + 1) g1;
              (r, g3) = rng_call R g2
          in (mkTerm (if r mod 3 = 0 then ADD else if r mod 3 = 1 then SUB else MULT)
                [left, right], g3)))"
proof (cases "depth > 2 \<or> (depth > 0 \<and> fst (rng_call R g) mod 3 = 0)")
  case True
  let ?g0 = "if depth > 2 then g else snd (rng_call R g)"
  have G: "arith_guard R depth g = (True, ?g0)" using True by (auto simp: arith_guard_eq)
  have eq: "generateArithmetic R depth g = generateInteger R (- 100) 100 ?g0"
    using G by (rule generateArithmetic_stop)
  obtain v g' where U: "uniform_int_distribution R (- 100) 100 ?g0 = (v, g')" by force
  have "- 100 \<le> v \<and> v \<le> 100"
    using assms U unfolding uniform_in_range_def
    by (metis fst_conv neg_le_iff_le neg_numeral_le_numeral)
  moreover have "fst (generateArithmetic R depth g) = mkInteger v"
    using eq U by (simp add: generateInteger_def)
  ultimately show ?thesis using True eq by blast
next
  case False
  let ?g0 = "if depth > 0 then snd (rng_call R g) else g"
  have G: "arith_guard R depth g = (False, ?g0)" using False by (auto simp: arith_guard_eq)
  obtain l g1 where L: "generateArithmetic R (depth + 1) ?g0 = (l, g1)" by force
  obtain r g2 where Rr: "generateArithmetic R (depth + 1) g1 = (r, g2)" by force
  obtain c g3 where C: "rng_call R g2 = (c, g3)" by force
  have res: "generateArithmetic R depth g = (mkTerm (arith_kind c) [l, r], g3)"
    using G L Rr C by (rule generateArithmetic_step)
  have "\<forall>v. fst (generateArithmetic R depth g) \<noteq> mkInteger v"
    using res mkTerm_not_mkInteger by simp
  moreover have "generateArithmetic R depth g =
         (let g0 = (if depth > 0 then snd (rng_call R g) else g);
              (left, g1) = generateArithmetic R (depth + 1) g0;
              (right, g2) = generateArithmetic R (depth + 1) g1;
              (r, g3) = rng_call R g2
          in (mkTerm (if r mod 3 = 0 then ADD else if r mod 3 = 1 then SUB else MULT)
                [left, right], g3))"
    using res L Rr C by (simp add: arith_kind_alt)
  ultimately show ?thesis using False by blast
qed

theorem generateArithmetic_branches_witness:
  "generateArithmetic script_ops 1 [3, 105] = generateInteger script_ops (- 100) 100 [105] \<and>
   (\<exists>v. - 100 \<le> v \<and> v \<le> 100 \<and> fst (generateArithmetic script_ops 1 [3, 105]) = mkInteger v) \<and>
   fst (generateArithmetic script_ops 1 [3, 105]) = Term ''5'' \<and>
   (\<forall>v. fst (generateArithmetic script_ops 0 [0, 105, 0, 107, 1]) \<noteq> mkInteger v) \<and>
   generateArithmetic script_ops 0 [0, 105, 0, 107, 1] = (Term ''(- 5 7)'', [])"
proof -
  have c1: "(1::int) > 2 \<or> ((1::int) > 0 \<and> fst (rng_call script_ops [3, 105]) mod 3 = 0)"
    by (simp add: script_ops_def script_call_def)
  have c2: "\<not> ((0::int) > 2 \<or> ((0::int) > 0 \<and>
              fst (rng_call script_ops [0, 105, 0, 107, 1]) mod 3 = 0))"
    by simp
  have s: "snd (rng_call script_ops [3, 105]) = [105]"
    by (simp add: script_ops_def script_call_def)
  have t1: "generateArithmetic script_ops 1 [3, 105] =
         generateInteger script_ops (- 100) 100
           (if (1::int) > 2 then [3, 105] else snd (rng_call script_ops [3, 105])) \<and>
       (\<exists>v. - 100 \<le> v \<and> v \<le> 100 \<and> fst (generateArithmetic script_ops 1 [3, 105]) = mkInteger v)"
    using generateArithmetic_branches[OF script_uniform_in_range, of 1 "[3, 105]"] c1
    by blast
  have p1: "generateArithmetic script_ops 1 [3, 105] =
         generateInteger script_ops (- 100) 100 [105]"
    using t1 s by simp
  have p2: "\<exists>v. - 100 \<le> v \<and> v \<le> 100 \<and>
               fst (generateArithmetic script_ops 1 [3, 105]) = mkInteger v"
    using t1 by blast
  have p3: "\<forall>v. fst (generateArithmetic script_ops 0 [0, 105, 0, 107, 1]) \<noteq> mkInteger v"
    using generateArithmetic_branches[OF script_uniform_in_range, of 0 "[0, 105, 0, 107, 1]"] c2
    by blast
  have e1: "fst (generateArithmetic script_ops 1 [3, 105]) = Term ''5''" by code_simp
  have e2: "generateArithmetic script_ops 0 [0, 105, 0, 107, 1] = (Term ''(- 5 7)'', [])"
    by code_simp
  show ?thesis
    using p1 p2 e1 p3 e2 by blast
qed

section \<open>Comparisons restart the arithmetic depth\<close>

lemma mkBoolean_not_comparison: "comparison_kind k \<Longrightarrow> mkBoolean b \<noteq> mkTerm k ts"
  using mkTerm_not_mkBoolean[of k ts b] by simp

text \<open>
  C8. At every depth argument, \<^verbatim>\<open>generateBooleanExpr\<close> returns a comparison exactly when
  its guard holds and the following coin \<^verbatim>\<open>rng() % 2\<close> is odd, and then both operands are
  generated by \<^verbatim>\<open>generateArithmetic\<close> at depth 0, whatever the depth of the Boolean
  expression is. The comparisons nested under connectives are returned by the recursive
  calls, which are instances of the same statement.
\<close>

theorem comparison_operands_restart_depth:
  "(fst (bool_guard R depth g) \<and> fst (rng_call R (snd (bool_guard R depth g))) mod 2 \<noteq> 0 \<longrightarrow>
      generateBooleanExpr R depth g =
        (let g1 = snd (rng_call R (snd (bool_guard R depth g)));
             (left, g2) = generateArithmetic R 0 g1;
             (right, g3) = generateArithmetic R 0 g2;
             (r, g4) = rng_call R g3
         in (mkTerm (compare_kind r) [left, right], g4)) \<and>
      (\<exists>k ts. comparison_kind k \<and> fst (generateBooleanExpr R depth g) = mkTerm k ts)) \<and>
   (\<not> (fst (bool_guard R depth g) \<and>
        fst (rng_call R (snd (bool_guard R depth g))) mod 2 \<noteq> 0) \<longrightarrow>
      \<not> (\<exists>k ts. comparison_kind k \<and> fst (generateBooleanExpr R depth g) = mkTerm k ts))"
proof -
  obtain stop g0 where G: "bool_guard R depth g = (stop, g0)" by force
  obtain c g1 where C: "rng_call R g0 = (c, g1)" by force
  show ?thesis
  proof (cases stop)
    case False
    obtain l h1 where L: "generateBooleanExpr R (depth + 1) g0 = (l, h1)" by force
    obtain r h2 where Rr: "generateBooleanExpr R (depth + 1) h1 = (r, h2)" by force
    obtain k h3 where K: "rng_call R h2 = (k, h3)" by force
    have res: "generateBooleanExpr R depth g = (mkTerm (connective_kind k) [l, r], h3)"
      using generateBooleanExpr_step[of R depth g g0 l h1 r h2 k h3] G False L Rr K by simp
    have "\<not> (\<exists>k' ts. comparison_kind k' \<and> fst (generateBooleanExpr R depth g) = mkTerm k' ts)"
      using res comparison_not_connective[OF _ connective_kind_boolean] by (metis fst_conv)
    then show ?thesis using G False by simp
  next
    case True
    have leaf: "generateBooleanExpr R depth g = bool_leaf R g0"
      using generateBooleanExpr_stop[of R depth g g0] G True by simp
    show ?thesis
    proof (cases "c mod 2 = 0")
      case even: True
      obtain b g2 where B: "rng_call R g1 = (b, g2)" by force
      have "fst (generateBooleanExpr R depth g) = mkBoolean (b mod 2 = 1)"
        using leaf bool_leaf_literal[OF C even] B by (simp add: generateBoolean_def)
      then have "\<not> (\<exists>k ts. comparison_kind k \<and>
                   fst (generateBooleanExpr R depth g) = mkTerm k ts)"
        using mkBoolean_not_comparison by metis
      then show ?thesis using G True C even by simp
    next
      case odd: False
      obtain l g2 where L: "generateArithmetic R 0 g1 = (l, g2)" by force
      obtain r g3 where Rr: "generateArithmetic R 0 g2 = (r, g3)" by force
      obtain k g4 where K: "rng_call R g3 = (k, g4)" by force
      have res: "generateBooleanExpr R depth g = (mkTerm (compare_kind k) [l, r], g4)"
        using leaf bool_leaf_comparison[OF C odd L Rr K] by simp
      then have "\<exists>k' ts. comparison_kind k' \<and>
                   fst (generateBooleanExpr R depth g) = mkTerm k' ts"
        using compare_kind_comparison[of k] by (metis fst_conv)
      moreover have "generateBooleanExpr R depth g =
        (let g1 = snd (rng_call R (snd (bool_guard R depth g)));
             (left, g2) = generateArithmetic R 0 g1;
             (right, g3) = generateArithmetic R 0 g2;
             (r, g4) = rng_call R g3
         in (mkTerm (compare_kind r) [left, right], g4))"
        using res G C L Rr K by simp
      ultimately show ?thesis using G True C odd by simp
    qed
  qed
qed

theorem comparison_operands_restart_depth_witness:
  "generateBooleanExpr script_ops 2 [1, 0, 105, 0, 107, 1, 0, 103, 0, 110, 2, 0] =
     (let g1 = snd (rng_call script_ops
                 (snd (bool_guard script_ops 2 [1, 0, 105, 0, 107, 1, 0, 103, 0, 110, 2, 0])));
          (left, g2) = generateArithmetic script_ops 0 g1;
          (right, g3) = generateArithmetic script_ops 0 g2;
          (r, g4) = rng_call script_ops g3
      in (mkTerm (compare_kind r) [left, right], g4)) \<and>
   generateBooleanExpr script_ops 2 [1, 0, 105, 0, 107, 1, 0, 103, 0, 110, 2, 0] =
     (Term ''(> (- 5 7) (* 3 10))'', []) \<and>
   \<not> (\<exists>k ts. comparison_kind k \<and>
        fst (generateBooleanExpr script_ops 2 [0, 1]) = mkTerm k ts) \<and>
   generateBooleanExpr script_ops 2 [0, 1] = (Term ''true'', [])"
proof -
  have c1: "fst (bool_guard script_ops 2 [1, 0, 105, 0, 107, 1, 0, 103, 0, 110, 2, 0]) \<and>
      fst (rng_call script_ops
             (snd (bool_guard script_ops 2 [1, 0, 105, 0, 107, 1, 0, 103, 0, 110, 2, 0])))
        mod 2 \<noteq> 0"
    by (simp add: bool_guard_def script_ops_def script_call_def)
  have c2: "\<not> (fst (bool_guard script_ops 2 [0, 1]) \<and>
      fst (rng_call script_ops (snd (bool_guard script_ops 2 [0, 1]))) mod 2 \<noteq> 0)"
    by (simp add: bool_guard_def script_ops_def script_call_def)
  have p1: "generateBooleanExpr script_ops 2 [1, 0, 105, 0, 107, 1, 0, 103, 0, 110, 2, 0] =
     (let g1 = snd (rng_call script_ops
                 (snd (bool_guard script_ops 2 [1, 0, 105, 0, 107, 1, 0, 103, 0, 110, 2, 0])));
          (left, g2) = generateArithmetic script_ops 0 g1;
          (right, g3) = generateArithmetic script_ops 0 g2;
          (r, g4) = rng_call script_ops g3
      in (mkTerm (compare_kind r) [left, right], g4))"
    using comparison_operands_restart_depth
            [of script_ops 2 "[1, 0, 105, 0, 107, 1, 0, 103, 0, 110, 2, 0]"] c1
    by blast
  have p2: "\<not> (\<exists>k ts. comparison_kind k \<and>
        fst (generateBooleanExpr script_ops 2 [0, 1]) = mkTerm k ts)"
    using comparison_operands_restart_depth[of script_ops 2 "[0, 1]"] c2
    by blast
  have e1: "generateBooleanExpr script_ops 2 [1, 0, 105, 0, 107, 1, 0, 103, 0, 110, 2, 0] =
     (Term ''(> (- 5 7) (* 3 10))'', [])"
    by code_simp
  have e2: "generateBooleanExpr script_ops 2 [0, 1] = (Term ''true'', [])"
    by code_simp
  show ?thesis using p1 e1 p2 e2 by blast
qed

section \<open>Campaign parameters are not validated\<close>

lemma fuzz_no_tests:
  "N \<le> 0 \<Longrightarrow> fuzz R N K st = st\<lparr>cout := cout st @ header_lines @ footer_lines N\<rparr>"
  by (simp add: fuzz_def test_loop_exit print_lines_def header_lines_def footer_lines_def)

lemma test_case_no_constraints:
  assumes "K \<le> 0"
  shows "rng (test_case R K n st) = rng st \<and>
         solver_calls (test_case R K n st) =
           solver_calls st @ [CallCheckSat, CallResetAssertions] \<and>
         cout (test_case R K n st) = cout st @ test_case_lines n []"
proof -
  have "constraint_loop R K 0 [] s = ([], s)" for s :: "'a TypeFuzz"
    using assms by (simp add: constraint_loop_exit)
  then show ?thesis
    by (simp add: test_case_def solver_checkSat_def checkSat_def isSat_def result_toString_def
        solver_resetAssertions_def print_lines_def test_case_lines_def)
qed

lemma test_loop_no_constraints:
  "K \<le> 0 \<Longrightarrow>
   rng (test_loop R N K n st) = rng st \<and>
   solver_calls (test_loop R N K n st) =
     solver_calls st @ concat (replicate (nat (N - n)) [CallCheckSat, CallResetAssertions]) \<and>
   cout (test_loop R N K n st) = cout st @ campaign_lines n (replicate (nat (N - n)) [])"
proof (induction R N K n st rule: test_loop.induct)
  case (1 R N K n st)
  show ?case
  proof (cases "n < N")
    case False
    then show ?thesis by (simp add: test_loop_exit)
  next
    case True
    have r: "nat (N - n) = Suc (nat (N - (n + 1)))" using True by simp
    show ?thesis
      using "1.IH"[OF True "1.prems"] test_case_no_constraints[OF "1.prems", of R n st]
      by (simp add: test_loop_step[OF True] r)
  qed
qed

text \<open>
  C7, as the code has it. \<^verbatim>\<open>fuzz\<close> validates nothing and raises nothing. With
  \<open>num_tests \<le> 0\<close> it runs no test case: it prints the banner and the closing lines and
  changes nothing else. With \<open>constraints_per_test \<le> 0\<close> every test case generates no
  term, so the engine is not advanced, and still calls \<^verbatim>\<open>checkSat\<close> and
  \<^verbatim>\<open>resetAssertions\<close> once each and reports \<open>sat\<close>. (\<^verbatim>\<open>fuzz\<close> has no \<open>maxDepth\<close> parameter.)
\<close>

theorem fuzz_validates_nothing:
  "(N \<le> 0 \<longrightarrow> fuzz R N K st = st\<lparr>cout := cout st @ header_lines @ footer_lines N\<rparr>) \<and>
   (K \<le> 0 \<longrightarrow>
      rng (fuzz R N K st) = rng st \<and>
      solver_calls (fuzz R N K st) =
        solver_calls st @ concat (replicate (nat N) [CallCheckSat, CallResetAssertions]) \<and>
      cout (fuzz R N K st) =
        cout st @ header_lines @ campaign_lines 0 (replicate (nat N) []) @ footer_lines N)"
proof (intro conjI impI)
  assume "N \<le> 0"
  then show "fuzz R N K st = st\<lparr>cout := cout st @ header_lines @ footer_lines N\<rparr>"
    by (rule fuzz_no_tests)
next
  assume K: "K \<le> 0"
  have f: "fuzz R N K st =
      print_lines (footer_lines N) (test_loop R N K 0 (print_lines header_lines st))"
    by (simp add: fuzz_def header_lines_def footer_lines_def)
  show "rng (fuzz R N K st) = rng st"
    using test_loop_no_constraints[OF K, of R N 0 "print_lines header_lines st"]
    by (simp add: f print_lines_def)
  show "solver_calls (fuzz R N K st) =
        solver_calls st @ concat (replicate (nat N) [CallCheckSat, CallResetAssertions])"
    using test_loop_no_constraints[OF K, of R N 0 "print_lines header_lines st"]
    by (simp add: f print_lines_def)
  show "cout (fuzz R N K st) =
        cout st @ header_lines @ campaign_lines 0 (replicate (nat N) []) @ footer_lines N"
    using test_loop_no_constraints[OF K, of R N 0 "print_lines header_lines st"]
    by (simp add: f print_lines_def)
qed

theorem fuzz_validates_nothing_witness:
  "fuzz script_ops (- 1) 3 (script_fuzzer [1, 2, 3]) =
     (script_fuzzer [1, 2, 3])
       \<lparr>cout := cout (script_fuzzer [1, 2, 3]) @ header_lines @ footer_lines (- 1)\<rparr> \<and>
   rng (fuzz script_ops 2 0 (script_fuzzer [1, 2, 3])) = rng (script_fuzzer [1, 2, 3]) \<and>
   solver_calls (fuzz script_ops 2 0 (script_fuzzer [1, 2, 3])) =
     solver_calls (script_fuzzer [1, 2, 3]) @
     concat (replicate (nat 2) [CallCheckSat, CallResetAssertions]) \<and>
   cout (fuzz script_ops 2 0 (script_fuzzer [1, 2, 3])) =
     cout (script_fuzzer [1, 2, 3]) @ header_lines @
     campaign_lines 0 (replicate (nat 2) []) @ footer_lines 2"
  using fuzz_validates_nothing[of "- 1" script_ops 3 "script_fuzzer [1, 2, 3]"]
        fuzz_validates_nothing[of 2 script_ops 0 "script_fuzzer [1, 2, 3]"]
  by simp

text \<open>
  C7 as stated fails: a campaign with \<open>num_tests = -1\<close> completes with its closing line
  \<open>TypeFuzz completed -1 test cases\<close>, and a campaign with \<open>constraints_per_test = 0\<close>
  runs its test case through \<^verbatim>\<open>checkSat\<close> and reports \<open>sat\<close>; neither is rejected.
\<close>

theorem invalid_parameters_accepted:
  "cout (fuzz script_ops (- 1) 3 (script_fuzzer [1, 2, 3])) =
     [''TypeFuzz Prototype - My C++ Implementation'',
      ''=============================================='',
      ''Using cvc5 C++ API for constraint generation and solving'',
      [],
      ''=============================================='',
      ''TypeFuzz completed -1 test cases'',
      ''Note: This uses mock cvc5 classes for demonstration.'',
      ''      Replace with #include <cvc5/cvc5.h> for real usage.''] \<and>
   cout (fuzz script_ops 1 0 (script_fuzzer [1, 2, 3])) =
     [''TypeFuzz Prototype - My C++ Implementation'',
      ''=============================================='',
      ''Using cvc5 C++ API for constraint generation and solving'',
      [],
      ''Test Case 1:'',
      ''----------------------------------------------'',
      ''  Satisfiability: sat'',
      ''  SATISFIABLE - Constraints are consistent'',
      ''----------------------------------------------'',
      [],
      ''=============================================='',
      ''TypeFuzz completed 1 test cases'',
      ''Note: This uses mock cvc5 classes for demonstration.'',
      ''      Replace with #include <cvc5/cvc5.h> for real usage.''] \<and>
   solver_calls (fuzz script_ops 1 0 (script_fuzzer [1, 2, 3])) =
     [CallCheckSat, CallResetAssertions]"
  by code_simp

section \<open>Campaigns are determined by the draws\<close>

lemma same_draws_rng:
  "same_draws B R R' \<Longrightarrow> B g h \<Longrightarrow>
   fst (rng_call R g) = fst (rng_call R' h) \<and> B (snd (rng_call R g)) (snd (rng_call R' h))"
  by (simp add: same_draws_def)

lemma same_draws_uniform:
  "same_draws B R R' \<Longrightarrow> B g h \<Longrightarrow>
   fst (uniform_int_distribution R lo hi g) = fst (uniform_int_distribution R' lo hi h) \<and>
   B (snd (uniform_int_distribution R lo hi g)) (snd (uniform_int_distribution R' lo hi h))"
  by (simp add: same_draws_def)

lemma generateInteger_agree:
  "same_draws B R R' \<Longrightarrow> B g h \<Longrightarrow>
   fst (generateInteger R lo hi g) = fst (generateInteger R' lo hi h) \<and>
   B (snd (generateInteger R lo hi g)) (snd (generateInteger R' lo hi h))"
  using same_draws_uniform[of B R R' g h lo hi]
  by (simp add: generateInteger_def case_prod_beta)

lemma generateBoolean_agree:
  "same_draws B R R' \<Longrightarrow> B g h \<Longrightarrow>
   fst (generateBoolean R g) = fst (generateBoolean R' h) \<and>
   B (snd (generateBoolean R g)) (snd (generateBoolean R' h))"
  using same_draws_rng[of B R R' g h]
  by (simp add: generateBoolean_def case_prod_beta)

lemma arith_guard_agree:
  "same_draws B R R' \<Longrightarrow> B g h \<Longrightarrow>
   fst (arith_guard R depth g) = fst (arith_guard R' depth h) \<and>
   B (snd (arith_guard R depth g)) (snd (arith_guard R' depth h))"
  using same_draws_rng[of B R R' g h]
  by (simp add: arith_guard_def case_prod_beta)

lemma bool_guard_agree:
  "same_draws B R R' \<Longrightarrow> B g h \<Longrightarrow>
   fst (bool_guard R depth g) = fst (bool_guard R' depth h) \<and>
   B (snd (bool_guard R depth g)) (snd (bool_guard R' depth h))"
  using same_draws_rng[of B R R' g h]
  by (simp add: bool_guard_def case_prod_beta)

lemma generateArithmetic_unfold:
  "generateArithmetic R depth g =
     (if fst (arith_guard R depth g)
      then generateInteger R (- 100) 100 (snd (arith_guard R depth g))
      else (mkTerm
              (arith_kind (fst (rng_call R (snd (generateArithmetic R (depth + 1)
                 (snd (generateArithmetic R (depth + 1) (snd (arith_guard R depth g)))))))))
              [fst (generateArithmetic R (depth + 1) (snd (arith_guard R depth g))),
               fst (generateArithmetic R (depth + 1)
                 (snd (generateArithmetic R (depth + 1) (snd (arith_guard R depth g)))))],
            snd (rng_call R (snd (generateArithmetic R (depth + 1)
                 (snd (generateArithmetic R (depth + 1) (snd (arith_guard R depth g)))))))))"
  by (subst generateArithmetic.simps) (simp add: case_prod_beta)

lemma generateArithmetic_agree:
  "same_draws B R R' \<Longrightarrow> B g h \<Longrightarrow>
   fst (generateArithmetic R depth g) = fst (generateArithmetic R' depth h) \<and>
   B (snd (generateArithmetic R depth g)) (snd (generateArithmetic R' depth h))"
proof (induction R depth g arbitrary: h rule: generateArithmetic.induct)
  case (1 R depth g)
  let ?g0 = "snd (arith_guard R depth g)" and ?h0 = "snd (arith_guard R' depth h)"
  have G: "fst (arith_guard R depth g) = fst (arith_guard R' depth h)" "B ?g0 ?h0"
    using arith_guard_agree[OF "1.prems"] by simp_all
  show ?case
  proof (cases "fst (arith_guard R depth g)")
    case True
    then show ?thesis
      using G generateInteger_agree[OF "1.prems"(1) G(2)]
      by (simp add: generateArithmetic_unfold[of R depth g]
                    generateArithmetic_unfold[of R' depth h])
  next
    case False
    have pair: "(fst (arith_guard R depth g), ?g0) = arith_guard R depth g" by simp
    let ?l = "generateArithmetic R (depth + 1) ?g0"
    let ?l' = "generateArithmetic R' (depth + 1) ?h0"
    have L: "fst ?l = fst ?l'" "B (snd ?l) (snd ?l')"
      using "1.IH"(1)[OF refl pair False "1.prems"(1) G(2)] by simp_all
    let ?r = "generateArithmetic R (depth + 1) (snd ?l)"
    let ?r' = "generateArithmetic R' (depth + 1) (snd ?l')"
    have pl: "(fst ?l, snd ?l) = ?l" by simp
    have Rr: "fst ?r = fst ?r'" "B (snd ?r) (snd ?r')"
      using "1.IH"(2)[OF refl pair False refl pl "1.prems"(1) L(2)] by simp_all
    have K: "fst (rng_call R (snd ?r)) = fst (rng_call R' (snd ?r'))"
            "B (snd (rng_call R (snd ?r))) (snd (rng_call R' (snd ?r')))"
      using same_draws_rng[OF "1.prems"(1) Rr(2)] by simp_all
    show ?thesis
      using False G(1) L(1) Rr(1) K
      by (simp add: generateArithmetic_unfold[of R depth g]
                    generateArithmetic_unfold[of R' depth h])
  qed
qed

lemma generateBooleanExpr_unfold:
  "generateBooleanExpr R depth g =
     (if fst (bool_guard R depth g)
      then bool_leaf R (snd (bool_guard R depth g))
      else (mkTerm
              (connective_kind (fst (rng_call R (snd (generateBooleanExpr R (depth + 1)
                 (snd (generateBooleanExpr R (depth + 1) (snd (bool_guard R depth g)))))))))
              [fst (generateBooleanExpr R (depth + 1) (snd (bool_guard R depth g))),
               fst (generateBooleanExpr R (depth + 1)
                 (snd (generateBooleanExpr R (depth + 1) (snd (bool_guard R depth g)))))],
            snd (rng_call R (snd (generateBooleanExpr R (depth + 1)
                 (snd (generateBooleanExpr R (depth + 1) (snd (bool_guard R depth g)))))))))"
  by (subst generateBooleanExpr.simps) (simp add: case_prod_beta)

lemma bool_leaf_unfold:
  "bool_leaf R g0 =
     (if fst (rng_call R g0) mod 2 = 0 then generateBoolean R (snd (rng_call R g0))
      else (mkTerm
              (compare_kind (fst (rng_call R (snd (generateArithmetic R 0
                 (snd (generateArithmetic R 0 (snd (rng_call R g0)))))))))
              [fst (generateArithmetic R 0 (snd (rng_call R g0))),
               fst (generateArithmetic R 0 (snd (generateArithmetic R 0 (snd (rng_call R g0)))))],
            snd (rng_call R (snd (generateArithmetic R 0
                 (snd (generateArithmetic R 0 (snd (rng_call R g0)))))))))"
  by (simp add: bool_leaf_def case_prod_beta)

lemma bool_leaf_agree:
  assumes S: "same_draws B R R'" and g: "B g h"
  shows "fst (bool_leaf R g) = fst (bool_leaf R' h) \<and>
         B (snd (bool_leaf R g)) (snd (bool_leaf R' h))"
proof -
  have C: "fst (rng_call R g) = fst (rng_call R' h)"
          "B (snd (rng_call R g)) (snd (rng_call R' h))"
    using same_draws_rng[OF S g] by simp_all
  let ?l = "generateArithmetic R 0 (snd (rng_call R g))"
  let ?l' = "generateArithmetic R' 0 (snd (rng_call R' h))"
  have L: "fst ?l = fst ?l'" "B (snd ?l) (snd ?l')"
    using generateArithmetic_agree[OF S C(2), of 0] by simp_all
  let ?r = "generateArithmetic R 0 (snd ?l)"
  let ?r' = "generateArithmetic R' 0 (snd ?l')"
  have Rr: "fst ?r = fst ?r'" "B (snd ?r) (snd ?r')"
    using generateArithmetic_agree[OF S L(2), of 0] by simp_all
  have K: "fst (rng_call R (snd ?r)) = fst (rng_call R' (snd ?r'))"
          "B (snd (rng_call R (snd ?r))) (snd (rng_call R' (snd ?r')))"
    using same_draws_rng[OF S Rr(2)] by simp_all
  show ?thesis
    using C(1) generateBoolean_agree[OF S C(2)] L(1) Rr(1) K
    by (simp add: bool_leaf_unfold[of R g] bool_leaf_unfold[of R' h])
qed

lemma generateBooleanExpr_agree:
  "same_draws B R R' \<Longrightarrow> B g h \<Longrightarrow>
   fst (generateBooleanExpr R depth g) = fst (generateBooleanExpr R' depth h) \<and>
   B (snd (generateBooleanExpr R depth g)) (snd (generateBooleanExpr R' depth h))"
proof (induction R depth g arbitrary: h rule: generateBooleanExpr.induct)
  case (1 R depth g)
  let ?g0 = "snd (bool_guard R depth g)" and ?h0 = "snd (bool_guard R' depth h)"
  have G: "fst (bool_guard R depth g) = fst (bool_guard R' depth h)" "B ?g0 ?h0"
    using bool_guard_agree[OF "1.prems"] by simp_all
  show ?case
  proof (cases "fst (bool_guard R depth g)")
    case True
    then show ?thesis
      using G bool_leaf_agree[OF "1.prems"(1) G(2)]
      by (simp add: generateBooleanExpr_unfold[of R depth g]
                    generateBooleanExpr_unfold[of R' depth h])
  next
    case False
    have pair: "(fst (bool_guard R depth g), ?g0) = bool_guard R depth g" by simp
    let ?l = "generateBooleanExpr R (depth + 1) ?g0"
    let ?l' = "generateBooleanExpr R' (depth + 1) ?h0"
    have L: "fst ?l = fst ?l'" "B (snd ?l) (snd ?l')"
      using "1.IH"(1)[OF refl pair False "1.prems"(1) G(2)] by simp_all
    let ?r = "generateBooleanExpr R (depth + 1) (snd ?l)"
    let ?r' = "generateBooleanExpr R' (depth + 1) (snd ?l')"
    have pl: "(fst ?l, snd ?l) = ?l" by simp
    have Rr: "fst ?r = fst ?r'" "B (snd ?r) (snd ?r')"
      using "1.IH"(2)[OF refl pair False refl pl "1.prems"(1) L(2)] by simp_all
    have K: "fst (rng_call R (snd ?r)) = fst (rng_call R' (snd ?r'))"
            "B (snd (rng_call R (snd ?r))) (snd (rng_call R' (snd ?r')))"
      using same_draws_rng[OF "1.prems"(1) Rr(2)] by simp_all
    show ?thesis
      using False G(1) L(1) Rr(1) K
      by (simp add: generateBooleanExpr_unfold[of R depth g]
                    generateBooleanExpr_unfold[of R' depth h])
  qed
qed

text \<open>Two fuzzer states agree on what a run adds to them.\<close>

lemma constraint_loop_agree:
  "same_draws B R R' \<Longrightarrow> B (rng st) (rng st') \<Longrightarrow>
   \<exists>ts. cout (snd (constraint_loop R K i cs st)) = cout st @ constraint_lines i ts \<and>
        cout (snd (constraint_loop R' K i cs' st')) = cout st' @ constraint_lines i ts \<and>
        solver_calls (snd (constraint_loop R K i cs st)) =
          solver_calls st @ map CallAssertFormula ts \<and>
        solver_calls (snd (constraint_loop R' K i cs' st')) =
          solver_calls st' @ map CallAssertFormula ts \<and>
        B (rng (snd (constraint_loop R K i cs st))) (rng (snd (constraint_loop R' K i cs' st')))"
proof (induction R K i cs st arbitrary: cs' st' rule: constraint_loop.induct)
  case (1 R K i cs st)
  show ?case
  proof (cases "i < K")
    case False
    then have "constraint_loop R K i cs st = (cs, st)"
      "constraint_loop R' K i cs' st' = (cs', st')"
      by (simp_all add: constraint_loop_exit)
    then show ?thesis using "1.prems"(2) by simp
  next
    case True
    obtain t g where G: "generateBooleanExpr R 0 (rng st) = (t, g)" by force
    obtain t' h where H: "generateBooleanExpr R' 0 (rng st') = (t', h)" by force
    have same: "t = t'" "B g h"
      using generateBooleanExpr_agree[OF "1.prems", of 0] G H by simp_all
    let ?st3 = "print_lines [''  Constraint '' @ to_string i @ '': '' @ toString t]
        (solver_assertFormula t (st\<lparr>rng := g\<rparr>))"
    let ?st3' = "print_lines [''  Constraint '' @ to_string i @ '': '' @ toString t]
        (solver_assertFormula t (st'\<lparr>rng := h\<rparr>))"
    have step: "constraint_loop R K i cs st = constraint_loop R K (i + 1) (cs @ [t]) ?st3"
      using constraint_loop_step[OF True G] .
    have step': "constraint_loop R' K i cs' st' = constraint_loop R' K (i + 1) (cs' @ [t]) ?st3'"
      using constraint_loop_step[OF True H] same(1) by simp
    have B3: "B (rng ?st3) (rng ?st3')"
      using same(2) by (simp add: print_lines_def solver_assertFormula_def)
    from "1.IH"[OF True G[symmetric] refl refl refl refl refl "1.prems"(1) B3,
                of "cs' @ [t]"]
    obtain ts where ts:
      "cout (snd (constraint_loop R K (i + 1) (cs @ [t]) ?st3)) =
         cout ?st3 @ constraint_lines (i + 1) ts"
      "cout (snd (constraint_loop R' K (i + 1) (cs' @ [t]) ?st3')) =
         cout ?st3' @ constraint_lines (i + 1) ts"
      "solver_calls (snd (constraint_loop R K (i + 1) (cs @ [t]) ?st3)) =
         solver_calls ?st3 @ map CallAssertFormula ts"
      "solver_calls (snd (constraint_loop R' K (i + 1) (cs' @ [t]) ?st3')) =
         solver_calls ?st3' @ map CallAssertFormula ts"
      "B (rng (snd (constraint_loop R K (i + 1) (cs @ [t]) ?st3)))
         (rng (snd (constraint_loop R' K (i + 1) (cs' @ [t]) ?st3')))"
      by blast
    have "cout (snd (constraint_loop R K i cs st)) = cout st @ constraint_lines i (t # ts)"
      using step ts(1) by (simp add: print_lines_def solver_assertFormula_def)
    moreover have "cout (snd (constraint_loop R' K i cs' st')) =
        cout st' @ constraint_lines i (t # ts)"
      using step' ts(2) by (simp add: print_lines_def solver_assertFormula_def)
    moreover have "solver_calls (snd (constraint_loop R K i cs st)) =
          solver_calls st @ map CallAssertFormula (t # ts)"
      using step ts(3) by (simp add: print_lines_def solver_assertFormula_def)
    moreover have "solver_calls (snd (constraint_loop R' K i cs' st')) =
          solver_calls st' @ map CallAssertFormula (t # ts)"
      using step' ts(4) by (simp add: print_lines_def solver_assertFormula_def)
    moreover have "B (rng (snd (constraint_loop R K i cs st)))
        (rng (snd (constraint_loop R' K i cs' st')))"
      using step step' ts(5) by simp
    ultimately show ?thesis by blast
  qed
qed

lemma test_case_agree:
  assumes S: "same_draws B R R'" and st: "B (rng st) (rng st')"
  shows "\<exists>ts. cout (test_case R K n st) = cout st @ test_case_lines n ts \<and>
        cout (test_case R' K n st') = cout st' @ test_case_lines n ts \<and>
        solver_calls (test_case R K n st) = solver_calls st @ test_case_calls ts \<and>
        solver_calls (test_case R' K n st') = solver_calls st' @ test_case_calls ts \<and>
        B (rng (test_case R K n st)) (rng (test_case R' K n st'))"
proof -
  let ?hd = "[''Test Case '' @ to_string (n + 1) @ '':'',
              ''----------------------------------------------'']"
  let ?st1 = "print_lines ?hd st" and ?st1' = "print_lines ?hd st'"
  obtain cs st2 where L: "constraint_loop R K 0 [] ?st1 = (cs, st2)" by force
  obtain cs' st2' where L': "constraint_loop R' K 0 [] ?st1' = (cs', st2')" by force
  have B1: "B (rng ?st1) (rng ?st1')" using st by (simp add: print_lines_def)
  from constraint_loop_agree[OF S B1, of K 0 "[]" "[]"] L L'
  obtain ts where ts:
    "cout st2 = cout ?st1 @ constraint_lines 0 ts"
    "cout st2' = cout ?st1' @ constraint_lines 0 ts"
    "solver_calls st2 = solver_calls ?st1 @ map CallAssertFormula ts"
    "solver_calls st2' = solver_calls ?st1' @ map CallAssertFormula ts"
    "B (rng st2) (rng st2')"
    by auto
  have "cout (test_case R K n st) = cout st @ test_case_lines n ts"
    using L ts(1) by (simp add: test_case_def solver_checkSat_def checkSat_def isSat_def
        result_toString_def solver_resetAssertions_def print_lines_def test_case_lines_def)
  moreover have "cout (test_case R' K n st') = cout st' @ test_case_lines n ts"
    using L' ts(2) by (simp add: test_case_def solver_checkSat_def checkSat_def isSat_def
        result_toString_def solver_resetAssertions_def print_lines_def test_case_lines_def)
  moreover have "solver_calls (test_case R K n st) = solver_calls st @ test_case_calls ts"
    using L ts(3) by (simp add: test_case_def solver_checkSat_def checkSat_def isSat_def
        solver_resetAssertions_def print_lines_def test_case_calls_def)
  moreover have "solver_calls (test_case R' K n st') = solver_calls st' @ test_case_calls ts"
    using L' ts(4) by (simp add: test_case_def solver_checkSat_def checkSat_def isSat_def
        solver_resetAssertions_def print_lines_def test_case_calls_def)
  moreover have "B (rng (test_case R K n st)) (rng (test_case R' K n st'))"
    using L L' ts(5) by (simp add: test_case_def solver_checkSat_def checkSat_def isSat_def
        solver_resetAssertions_def print_lines_def)
  ultimately show ?thesis by blast
qed

lemma test_loop_agree:
  "same_draws B R R' \<Longrightarrow> B (rng st) (rng st') \<Longrightarrow>
   \<exists>tss. cout (test_loop R N K n st) = cout st @ campaign_lines n tss \<and>
         cout (test_loop R' N K n st') = cout st' @ campaign_lines n tss \<and>
         solver_calls (test_loop R N K n st) = solver_calls st @ campaign_calls tss \<and>
         solver_calls (test_loop R' N K n st') = solver_calls st' @ campaign_calls tss \<and>
         B (rng (test_loop R N K n st)) (rng (test_loop R' N K n st'))"
proof (induction R N K n st arbitrary: st' rule: test_loop.induct)
  case (1 R N K n st)
  show ?case
  proof (cases "n < N")
    case False
    then have "test_loop R N K n st = st" "test_loop R' N K n st' = st'"
      by (simp_all add: test_loop_exit)
    then have "cout (test_loop R N K n st) = cout st @ campaign_lines n [] \<and>
         cout (test_loop R' N K n st') = cout st' @ campaign_lines n [] \<and>
         solver_calls (test_loop R N K n st) = solver_calls st @ campaign_calls [] \<and>
         solver_calls (test_loop R' N K n st') = solver_calls st' @ campaign_calls [] \<and>
         B (rng (test_loop R N K n st)) (rng (test_loop R' N K n st'))"
      using "1.prems"(2) by (simp add: campaign_calls_def)
    then show ?thesis by blast
  next
    case True
    obtain ts where ts:
        "cout (test_case R K n st) = cout st @ test_case_lines n ts"
        "cout (test_case R' K n st') = cout st' @ test_case_lines n ts"
        "solver_calls (test_case R K n st) = solver_calls st @ test_case_calls ts"
        "solver_calls (test_case R' K n st') = solver_calls st' @ test_case_calls ts"
        "B (rng (test_case R K n st)) (rng (test_case R' K n st'))"
      using test_case_agree[OF "1.prems", of K n] by blast
    from "1.IH"[OF True "1.prems"(1) ts(5)]
    obtain tss where tss:
        "cout (test_loop R N K (n + 1) (test_case R K n st)) =
           cout (test_case R K n st) @ campaign_lines (n + 1) tss"
        "cout (test_loop R' N K (n + 1) (test_case R' K n st')) =
           cout (test_case R' K n st') @ campaign_lines (n + 1) tss"
        "solver_calls (test_loop R N K (n + 1) (test_case R K n st)) =
           solver_calls (test_case R K n st) @ campaign_calls tss"
        "solver_calls (test_loop R' N K (n + 1) (test_case R' K n st')) =
           solver_calls (test_case R' K n st') @ campaign_calls tss"
        "B (rng (test_loop R N K (n + 1) (test_case R K n st)))
           (rng (test_loop R' N K (n + 1) (test_case R' K n st')))"
      by blast
    have step: "test_loop R N K n st = test_loop R N K (n + 1) (test_case R K n st)"
      "test_loop R' N K n st' = test_loop R' N K (n + 1) (test_case R' K n st')"
      using True by (simp_all add: test_loop_step)
    have "cout (test_loop R N K n st) = cout st @ campaign_lines n (ts # tss)"
      using step(1) ts(1) tss(1) by simp
    moreover have "cout (test_loop R' N K n st') = cout st' @ campaign_lines n (ts # tss)"
      using step(2) ts(2) tss(2) by simp
    moreover have "solver_calls (test_loop R N K n st) =
        solver_calls st @ campaign_calls (ts # tss)"
      using step(1) ts(3) tss(3) by (simp add: campaign_calls_def)
    moreover have "solver_calls (test_loop R' N K n st') =
        solver_calls st' @ campaign_calls (ts # tss)"
      using step(2) ts(4) tss(4) by (simp add: campaign_calls_def)
    moreover have "B (rng (test_loop R N K n st)) (rng (test_loop R' N K n st'))"
      using step tss(5) by simp
    ultimately show ?thesis by blast
  qed
qed

lemma fuzz_agree:
  assumes "same_draws B R R'" and "B (rng st) (rng st')"
  shows "\<exists>tss. cout (fuzz R N K st) =
                 cout st @ header_lines @ campaign_lines 0 tss @ footer_lines N \<and>
               cout (fuzz R' N K st') =
                 cout st' @ header_lines @ campaign_lines 0 tss @ footer_lines N \<and>
               solver_calls (fuzz R N K st) = solver_calls st @ campaign_calls tss \<and>
               solver_calls (fuzz R' N K st') = solver_calls st' @ campaign_calls tss \<and>
               B (rng (fuzz R N K st)) (rng (fuzz R' N K st'))"
proof -
  let ?st1 = "print_lines header_lines st" and ?st1' = "print_lines header_lines st'"
  have B1: "B (rng ?st1) (rng ?st1')" using assms(2) by (simp add: print_lines_def)
  obtain tss where tss:
      "cout (test_loop R N K 0 ?st1) = cout ?st1 @ campaign_lines 0 tss"
      "cout (test_loop R' N K 0 ?st1') = cout ?st1' @ campaign_lines 0 tss"
      "solver_calls (test_loop R N K 0 ?st1) = solver_calls ?st1 @ campaign_calls tss"
      "solver_calls (test_loop R' N K 0 ?st1') = solver_calls ?st1' @ campaign_calls tss"
      "B (rng (test_loop R N K 0 ?st1)) (rng (test_loop R' N K 0 ?st1'))"
    using test_loop_agree[OF assms(1) B1, of N K 0] by blast
  have f: "fuzz R N K st = print_lines (footer_lines N) (test_loop R N K 0 ?st1)"
     "fuzz R' N K st' = print_lines (footer_lines N) (test_loop R' N K 0 ?st1')"
    by (simp_all add: fuzz_def header_lines_def footer_lines_def)
  have "cout (fuzz R N K st) = cout st @ header_lines @ campaign_lines 0 tss @ footer_lines N"
    using tss(1) by (simp add: f print_lines_def)
  moreover have "cout (fuzz R' N K st') =
      cout st' @ header_lines @ campaign_lines 0 tss @ footer_lines N"
    using tss(2) by (simp add: f print_lines_def)
  moreover have "solver_calls (fuzz R N K st) = solver_calls st @ campaign_calls tss"
    using tss(3) by (simp add: f print_lines_def)
  moreover have "solver_calls (fuzz R' N K st') = solver_calls st' @ campaign_calls tss"
    using tss(4) by (simp add: f print_lines_def)
  moreover have "B (rng (fuzz R N K st)) (rng (fuzz R' N K st'))"
    using tss(5) by (simp add: f print_lines_def)
  ultimately show ?thesis by blast
qed

text \<open>
  C4, as the code has it. The constructor takes no seed (the engine is seeded from
  \<^verbatim>\<open>std::random_device\<close>) and \<^verbatim>\<open>fuzz\<close> takes only \<open>num_tests\<close> and
  \<open>constraints_per_test\<close>. What holds is that a campaign is determined by the draws: two
  campaigns with the same \<open>num_tests\<close> and \<open>constraints_per_test\<close> whose engines deliver the
  same draws (in particular, two engines of the same kind in the same state, as after
  seeding with the same value) generate the same terms, print the same lines and make
  the same solver calls, whatever the engines' representation and whatever the fuzzers
  printed or called before.
\<close>

theorem campaigns_with_same_draws_agree:
  assumes "same_draws B R R'" and "B (rng st) (rng st')"
  shows "\<exists>tss. cout (fuzz R N K st) =
                 cout st @ header_lines @ campaign_lines 0 tss @ footer_lines N \<and>
               cout (fuzz R' N K st') =
                 cout st' @ header_lines @ campaign_lines 0 tss @ footer_lines N \<and>
               solver_calls (fuzz R N K st) = solver_calls st @ campaign_calls tss \<and>
               solver_calls (fuzz R' N K st') = solver_calls st' @ campaign_calls tss \<and>
               B (rng (fuzz R N K st)) (rng (fuzz R' N K st'))"
  using assms by (rule fuzz_agree)

section \<open>The Mersenne Twister\<close>

lemma mt_fill_length: "length (mt_fill k i prev) = k"
  by (induction k i prev rule: mt_fill.induct) simp_all

lemma mt_fill_nth:
  "n < k \<Longrightarrow> mt_fill k i prev ! n = mt_iter (Suc n) (i - 1) prev" if "0 < i"
  using that
proof (induction k i prev arbitrary: n rule: mt_fill.induct)
  case (1 i prev)
  then show ?case by simp
next
  case (2 k i prev)
  show ?case
  proof (cases n)
    case 0
    then show ?thesis using "2.prems" by simp
  next
    case (Suc m)
    then have "mt_fill (Suc k) i prev ! n = mt_fill k (Suc i) (mt_step i prev) ! m"
      by simp
    also have "\<dots> = mt_iter (Suc m) i (mt_step i prev)"
      using "2.IH"[of m] "2.prems" Suc by simp
    finally show ?thesis using Suc "2.prems" by simp
  qed
qed

lemma mt_seed_length: "length (mt19937_seed s) = 624"
  by (simp add: mt19937_seed_def mt_fill_length)

lemma mt_seed_nth: "n < 624 \<Longrightarrow> mt19937_seed s ! n = mt_iter n 0 s"
proof (cases n)
  case 0
  then show ?thesis by (simp add: mt19937_seed_def)
next
  case (Suc m)
  assume "n < 624"
  then have "m < 623" using Suc by simp
  then show ?thesis using Suc mt_fill_nth[of 1 m 623 s] by (simp add: mt19937_seed_def)
qed

lemma mt_iter_Suc: "mt_iter (Suc k) i x = mt_step (i + Suc k) (mt_iter k i x)"
  by (induction k i x rule: mt_iter.induct) simp_all

lemma mt19937_call_alt:
  "mt19937_call st =
     (mt_temper (mt_twist (st ! 0) (st ! 1) (st ! 397)),
      tl st @ [mt_twist (st ! 0) (st ! 1) (st ! 397)])"
  by (simp add: mt19937_call_def Let_def)

lemma mt_state_Suc: "mt_state s (Suc j) = snd (mt19937_call (mt_state s j))"
  by (simp add: mt_state_def)

lemma mt_state_shape:
  "j \<le> 227 \<Longrightarrow> \<exists>news. mt_state s j = drop j (mt19937_seed s) @ news"
proof (induction j)
  case 0
  show ?case by (simp add: mt_state_def)
next
  case (Suc j)
  then obtain news where n: "mt_state s j = drop j (mt19937_seed s) @ news" by auto
  have ne: "drop j (mt19937_seed s) \<noteq> []" using Suc.prems by (simp add: mt_seed_length)
  have "tl (drop j (mt19937_seed s) @ news) = drop (Suc j) (mt19937_seed s) @ news"
    using ne by (simp add: drop_Suc tl_drop)
  then have "mt_state s (Suc j) = drop (Suc j) (mt19937_seed s) @
      (news @ [mt_twist (mt_state s j ! 0) (mt_state s j ! 1) (mt_state s j ! 397)])"
    using n by (simp add: mt_state_Suc mt19937_call_alt)
  then show ?case by blast
qed

lemma mt_state_nth:
  assumes "j < 227" and "i \<le> 397"
  shows "mt_state s j ! i = mt_iter (j + i) 0 s"
proof -
  obtain news where n: "mt_state s j = drop j (mt19937_seed s) @ news"
    using mt_state_shape[of j s] assms(1) by auto
  have "i < length (drop j (mt19937_seed s))" using assms by (simp add: mt_seed_length)
  then have "mt_state s j ! i = drop j (mt19937_seed s) ! i" using n by (simp add: nth_append)
  also have "\<dots> = mt19937_seed s ! (j + i)" using assms by (simp add: mt_seed_length)
  also have "\<dots> = mt_iter (j + i) 0 s" using assms by (simp add: mt_seed_nth)
  finally show ?thesis .
qed

lemma mt_iter_next: "mt_iter (Suc j) 0 s = mt_step (Suc j) (mt_iter j 0 s)"
  using mt_iter_Suc[of j 0 s] by (simp del: mt_iter.simps)

lemma mt_first_draws:
  assumes "j < 227"
  shows "fst (mt19937_call (mt_state s j)) =
         mt_temper (mt_twist (mt_iter j 0 s) (mt_step (Suc j) (mt_iter j 0 s))
                      (mt_iter (j + 397) 0 s))"
proof -
  have a: "mt_state s j ! 0 = mt_iter j 0 s"
    using mt_state_nth[OF assms, of 0 s] by simp
  have b: "mt_state s j ! Suc 0 = mt_step (Suc j) (mt_iter j 0 s)"
    using mt_state_nth[OF assms, of 1 s] mt_iter_next[of j s] by (simp del: mt_iter.simps)
  have c: "mt_state s j ! 397 = mt_iter (j + 397) 0 s"
    using mt_state_nth[OF assms, of 397 s] by simp
  show ?thesis by (simp add: mt19937_call_alt a b c del: mt_iter.simps)
qed

lemma mt_tracks_call:
  assumes "mt_tracks g h"
  shows "fst (mt19937_call g) = fst (mt_light_call h) \<and>
         mt_tracks (snd (mt19937_call g)) (snd (mt_light_call h))"
proof -
  obtain s j lo hi where h: "h = (s, j, lo, hi)" by (cases h) auto
  have g: "g = mt_state s j" and
       c: "j < 227 \<Longrightarrow> lo = mt_iter j 0 s \<and> hi = mt_iter (j + 397) 0 s"
    using assms h by (simp_all add: mt_tracks_def)
  have out: "fst (mt19937_call g) = fst (mt_light_call h)"
  proof (cases "j < 227")
    case True
    then show ?thesis using mt_first_draws[OF True, of s] c g h by simp
  next
    case False
    then show ?thesis using g h by simp
  qed
  have "mt_step (Suc j) lo = mt_iter (Suc j) 0 s \<and>
        mt_step (j + 398) hi = mt_iter (Suc j + 397) 0 s" if "Suc j < 227"
  proof -
    have lh: "lo = mt_iter j 0 s" "hi = mt_iter (j + 397) 0 s" using c that by simp_all
    have e: "Suc (j + 397) = j + 398" "Suc j + 397 = j + 398" by simp_all
    have "mt_iter (j + 398) 0 s = mt_step (j + 398) (mt_iter (j + 397) 0 s)"
      using mt_iter_next[of "j + 397" s] by (simp only: e)
    then have "mt_step (j + 398) hi = mt_iter (Suc j + 397) 0 s"
      using lh(2) by (simp only: e)
    moreover have "mt_step (Suc j) lo = mt_iter (Suc j) 0 s"
      using lh(1) mt_iter_next[of j s] by (simp only:)
    ultimately show ?thesis by (simp only:)
  qed
  then have "mt_tracks (snd (mt19937_call g)) (snd (mt_light_call h))"
    using g h by (simp add: mt_tracks_def mt_state_Suc del: mt_iter.simps)
  then show ?thesis using out by simp
qed

lemma mt_light_same_draws: "same_draws mt_tracks mt19937_ops mt_light_ops"
  unfolding same_draws_def
proof (intro allI impI)
  fix g h
  assume t: "mt_tracks g h"
  have c: "fst (mt19937_call g) = fst (mt_light_call h)"
          "mt_tracks (snd (mt19937_call g)) (snd (mt_light_call h))"
    using mt_tracks_call[OF t] by simp_all
  show "fst (rng_call mt19937_ops g) = fst (rng_call mt_light_ops h) \<and>
        mt_tracks (snd (rng_call mt19937_ops g)) (snd (rng_call mt_light_ops h)) \<and>
        (\<forall>lo hi.
           fst (uniform_int_distribution mt19937_ops lo hi g) =
           fst (uniform_int_distribution mt_light_ops lo hi h) \<and>
           mt_tracks (snd (uniform_int_distribution mt19937_ops lo hi g))
             (snd (uniform_int_distribution mt_light_ops lo hi h)))"
    using c
    by (simp add: mt19937_ops_def mt_light_ops_def mt_uniform_def mt_light_uniform_def
                  case_prod_beta)
qed

lemma mt_light_seed_tracks: "mt_tracks (mt19937_seed s) (mt_light_seed s)"
  by (simp add: mt_tracks_def mt_light_seed_def mt_state_def)

lemma mt19937_campaign_calls:
  "solver_calls (fuzz mt19937_ops N K (TypeFuzz_new mt19937_seed e)) =
   solver_calls (fuzz mt_light_ops N K (TypeFuzz_new mt_light_seed e))"
proof -
  have "mt_tracks (rng (TypeFuzz_new mt19937_seed e)) (rng (TypeFuzz_new mt_light_seed e))"
    by (simp add: TypeFuzz_new_def mt_light_seed_tracks)
  from fuzz_agree[OF mt_light_same_draws this, of N K]
  show ?thesis by (auto simp: TypeFuzz_new_def)
qed

text \<open>
  The outputs of the engine: after the default seed 5489, and after the two seeds
  used below.
\<close>

lemma draw_list_agree:
  "same_draws B R R' \<Longrightarrow> B g h \<Longrightarrow> draw_list R n g = draw_list R' n h"
proof (induction n arbitrary: g h)
  case 0
  show ?case by simp
next
  case (Suc n)
  have "fst (rng_call R g) = fst (rng_call R' h)" "B (snd (rng_call R g)) (snd (rng_call R' h))"
    using same_draws_rng[OF Suc.prems] by simp_all
  then show ?case using Suc.IH[OF Suc.prems(1)] by simp
qed

lemma mt19937_draw_list:
  "draw_list mt19937_ops n (mt19937_seed s) = draw_list mt_light_ops n (mt_light_seed s)"
  using mt_light_same_draws mt_light_seed_tracks by (rule draw_list_agree)

lemma mt19937_draws_seed_3:
  "draw_list mt19937_ops 10 (mt19937_seed 3) =
     [2365658986, 303761048, 3041471737, 3607553667, 1249426360, 521102280, 2193987840,
      2445173525, 3835177981, 1877166739]"
  unfolding mt19937_draw_list by code_simp

lemma mt19937_draws_seed_13:
  "draw_list mt19937_ops 7 (mt19937_seed 13) =
     [3340206418, 2608511152, 1020231754, 3691240976, 3540249318, 3835331426, 4147861236]"
  unfolding mt19937_draw_list by code_simp

lemma mt19937_draws_default_seed:
  "draw_list mt19937_ops 5 (mt19937_seed 5489) =
     [3499211612, 581869302, 3890346734, 3586334585, 545404204]"
  unfolding mt19937_draw_list by code_simp

theorem campaigns_with_same_draws_agree_witness:
  "same_draws mt_tracks mt19937_ops mt_light_ops \<and>
   mt_tracks (rng (TypeFuzz_new mt19937_seed 3)) (rng (TypeFuzz_new mt_light_seed 3)) \<and>
   (\<exists>tss. cout (fuzz mt19937_ops 3 2 (TypeFuzz_new mt19937_seed 3)) =
            cout (TypeFuzz_new mt19937_seed 3) @
            header_lines @ campaign_lines 0 tss @ footer_lines 3 \<and>
          cout (fuzz mt_light_ops 3 2 (TypeFuzz_new mt_light_seed 3)) =
            cout (TypeFuzz_new mt_light_seed 3) @
            header_lines @ campaign_lines 0 tss @ footer_lines 3 \<and>
          solver_calls (fuzz mt19937_ops 3 2 (TypeFuzz_new mt19937_seed 3)) =
            solver_calls (TypeFuzz_new mt19937_seed 3) @ campaign_calls tss \<and>
          solver_calls (fuzz mt_light_ops 3 2 (TypeFuzz_new mt_light_seed 3)) =
            solver_calls (TypeFuzz_new mt_light_seed 3) @ campaign_calls tss \<and>
          mt_tracks (rng (fuzz mt19937_ops 3 2 (TypeFuzz_new mt19937_seed 3)))
            (rng (fuzz mt_light_ops 3 2 (TypeFuzz_new mt_light_seed 3))))"
proof -
  have a: "same_draws mt_tracks mt19937_ops mt_light_ops" by (rule mt_light_same_draws)
  have b: "mt_tracks (rng (TypeFuzz_new mt19937_seed 3)) (rng (TypeFuzz_new mt_light_seed 3))"
    by (simp add: TypeFuzz_new_def mt_light_seed_tracks)
  show ?thesis
    using a b campaigns_with_same_draws_agree[OF a b, of 3 2] by (intro conjI)
qed

lemma light_campaign_seed_3: "solver_calls (fuzz mt_light_ops 1 1 (TypeFuzz_new mt_light_seed 3)) =
     [CallAssertFormula (Term ''(or true (or false true))''), CallCheckSat,
      CallResetAssertions]"
  by code_simp

lemma light_campaign_seed_13: "solver_calls (fuzz mt_light_ops 1 1 (TypeFuzz_new mt_light_seed 13)) =
     [CallAssertFormula (Term ''(and false false)''), CallCheckSat, CallResetAssertions]"
  by code_simp

text \<open>
  C4 as stated fails: nothing the caller passes fixes the seed. Two runs of
  \<^verbatim>\<open>fuzz(1, 1)\<close> on freshly constructed fuzzers, one where \<^verbatim>\<open>std::random_device\<close> delivered
  3 and one where it delivered 13, assert different terms. The first run consumes the
  ten draws of \<open>mt19937_draws_seed_3\<close>, the second the seven draws of
  \<open>mt19937_draws_seed_13\<close>; neither draws an integer, so the outcome does not depend on
  the library's distribution.
\<close>

theorem unseeded_campaigns_differ:
  "solver_calls (fuzz mt19937_ops 1 1 (TypeFuzz_new mt19937_seed 3)) =
     [CallAssertFormula (Term ''(or true (or false true))''), CallCheckSat,
      CallResetAssertions] \<and>
   solver_calls (fuzz mt19937_ops 1 1 (TypeFuzz_new mt19937_seed 13)) =
     [CallAssertFormula (Term ''(and false false)''), CallCheckSat, CallResetAssertions]"
  using light_campaign_seed_3 light_campaign_seed_13 by (simp only: mt19937_campaign_calls)

end
